theory Spec2Isabelle
  imports Main "HOL-Library.Word"
begin

unbundle bit_operations_syntax

section \<open>The NBT decoder of decode.go\<close>

text \<open>
  A shallow embedding of \<^verbatim>\<open>decode.go\<close>: the stream reader (\<^verbatim>\<open>r\<close>, \<^verbatim>\<open>readTag\<close>,
  \<^verbatim>\<open>readString\<close>), the recursive tag decoder \<^verbatim>\<open>readValue\<close> and the entry point
  \<^verbatim>\<open>Unmarshal\<close>. The Go code reports every failure with \<^verbatim>\<open>panic\<close>, which
  \<^verbatim>\<open>Unmarshal\<close> recovers and returns as its error; here a panic is the value \<open>Inl e\<close>.
  The destination, which Go mutates through \<^verbatim>\<open>reflect.Value\<close>, is passed in and returned
  updated. What a failed decode leaves in the destination is not tracked.
\<close>

subsection \<open>The input stream\<close>

type_synonym byte = "8 word"

text \<open>
  \<^verbatim>\<open>d.in\<close> is an \<^verbatim>\<open>io.Reader\<close>. A reader is the list of chunks it has yet to deliver: one
  call of \<^verbatim>\<open>Read(p)\<close> hands out at most \<^verbatim>\<open>len(p)\<close> bytes of the first chunk with a nil
  error (a short read when the chunk holds less), and \<^verbatim>\<open>(0, io.EOF)\<close> once nothing is left.
  A \<^verbatim>\<open>bytes.Reader\<close> over a buffer \<open>bs\<close> is the one-chunk reader \<open>[bs]\<close>; a decompressor
  or a network connection delivers several chunks.

  These are the readers that keep bytes and errors apart and report the end on every
  call, as \<^verbatim>\<open>bytes.Reader\<close> and \<^verbatim>\<open>strings.Reader\<close> do. The contract of \<^verbatim>\<open>io.Reader\<close> also
  admits a reader that returns its last bytes together with \<^verbatim>\<open>io.EOF\<close>, and one that
  answers a call with an empty \<^verbatim>\<open>p\<close> at the end of the stream with a nil error
  (\<^verbatim>\<open>bytes.Buffer\<close>); such readers are not among the values of this type. The
  properties below that are stated from what \<open>r\<close> or \<open>readTag\<close> returns do not depend on
  this choice.
\<close>

type_synonym reader = "byte list list"

datatype ioerr = EOF | ErrUnexpectedEOF

fun Read :: "nat \<Rightarrow> reader \<Rightarrow> byte list \<times> ioerr option \<times> reader" where
  "Read n [] = ([], Some EOF, [])"
| "Read n (c # cs) = (take n c, None, if drop n c = [] then cs else drop n c # cs)"

text \<open>
  \<^verbatim>\<open>io.ReadAtLeast\<close> with \<^verbatim>\<open>min = len(buf)\<close>, which is \<^verbatim>\<open>io.ReadFull\<close>, the read
  \<^verbatim>\<open>binary.Read\<close> performs: it calls \<^verbatim>\<open>Read\<close> until \<open>want\<close> bytes have arrived.
\<close>

function ReadFull :: "nat \<Rightarrow> byte list \<Rightarrow> reader \<Rightarrow> ioerr + byte list \<times> reader" where
  "ReadFull want got rd =
     (if want \<le> length got then Inr (got, rd)
      else (case Read (want - length got) rd of
              (bs, Some e, rd') \<Rightarrow>
                 if want \<le> length (got @ bs) then Inr (got @ bs, rd')
                 else if 0 < length (got @ bs) \<and> e = EOF then Inl ErrUnexpectedEOF
                 else Inl e
            | (bs, None, rd') \<Rightarrow> ReadFull want (got @ bs) rd'))"
  by pat_completeness auto
termination
  apply (relation "measure (\<lambda>(want, got, rd). (want - length got) + length rd)")
   apply simp
  subgoal for want got rd
    by (cases rd) (auto split: if_splits)
  done

declare ReadFull.simps [simp del]

subsection \<open>Tags, compression selectors and errors\<close>

text \<open>
  Modelled from the spec: the declaration of \<^verbatim>\<open>Tag\<close> and of its constants is not in
  \<^verbatim>\<open>decode.go\<close>. A tag is read as a single byte; the constants take the order
  in which the spec lists the enumeration (End, Byte, Short, Int, Long, Float, Double,
  ByteArray, String, List, Compound, IntArray), counted from 0.
\<close>

type_synonym Tag = "8 word"

definition TAG_End :: Tag where "TAG_End = 0"
definition TAG_Byte :: Tag where "TAG_Byte = 1"
definition TAG_Short :: Tag where "TAG_Short = 2"
definition TAG_Int :: Tag where "TAG_Int = 3"
definition TAG_Long :: Tag where "TAG_Long = 4"
definition TAG_Float :: Tag where "TAG_Float = 5"
definition TAG_Double :: Tag where "TAG_Double = 6"
definition TAG_Byte_Array :: Tag where "TAG_Byte_Array = 7"
definition TAG_String :: Tag where "TAG_String = 8"
definition TAG_List :: Tag where "TAG_List = 9"
definition TAG_Compound :: Tag where "TAG_Compound = 10"
definition TAG_Int_Array :: Tag where "TAG_Int_Array = 11"

text \<open>
  Modelled from the spec: the declaration of \<^verbatim>\<open>Compression\<close> is not in \<^verbatim>\<open>decode.go\<close>
  either. The three selectors the code names, and \<open>OtherCompression k\<close> for every
  other value \<open>k\<close> of the underlying integer type.
\<close>

datatype Compression = Uncompressed | GZip | ZLib | OtherCompression int

datatype Kind =
    reflect_Bool | reflect_Int | reflect_Int8 | reflect_Int16 | reflect_Int32
  | reflect_Int64 | reflect_Uint | reflect_Uint8 | reflect_Uint16 | reflect_Uint32
  | reflect_Uint64 | reflect_Uintptr | reflect_Float32 | reflect_Float64
  | reflect_Complex64 | reflect_Complex128 | reflect_Array | reflect_Chan
  | reflect_Func | reflect_Interface | reflect_Map | reflect_Pointer | reflect_Slice
  | reflect_String | reflect_Struct | reflect_UnsafePointer

text \<open>
  The panics package \<^verbatim>\<open>reflect\<close> raises on the calls \<^verbatim>\<open>readValue\<close> makes: a setter
  (named by the method) on a value that is not addressable, a method on a value of the
  wrong kind, \<^verbatim>\<open>Slice\<close> of an array that is not addressable or beyond the capacity,
  \<^verbatim>\<open>Bytes\<close> of a slice whose elements are not bytes.
\<close>

datatype reflect_panic =
    UsingUnaddressableValue string
  | ValueError string Kind
  | SliceOfUnaddressableArray
  | SliceIndexOutOfBounds
  | BytesOfNonByteSlice

text \<open>
  One constructor for each panic of \<^verbatim>\<open>decode.go\<close>, with the values its message prints;
  \<open>IOError\<close> for an error of the stream, \<open>ReflectPanic\<close> for a panic raised inside
  package \<^verbatim>\<open>reflect\<close>, \<open>OtherError\<close> for an error value that comes from outside
  (the decompressors).
\<close>

datatype error =
    NilInput
  | UnknownCompression Compression
  | IOError ioerr
  | NotPortable
  | KindMismatch Tag Kind
  | ByteArrayTooLong nat nat
  | UnhandledField Tag "byte list"
  | UnhandledTag Tag
  | ReflectPanic reflect_panic
  | OtherError string

subsection \<open>Destination values\<close>

text \<open>
  The types and values \<^verbatim>\<open>readValue\<close> can meet behind a \<^verbatim>\<open>reflect.Value\<close>. Integers
  are words of their width (\<^verbatim>\<open>int\<close> and \<^verbatim>\<open>uint\<close> are taken 64 bits wide). A float is
  given by its bit pattern. A Go string is its bytes. A slice is its
  backing array (whose length is the capacity) and its length. A struct is the list of
  its fields, each under the name it is decoded by. Kinds the decoder has no case for
  carry no content.
\<close>

datatype float = Float32frombits "32 word" | Float64frombits "64 word"

datatype OtherKind = Other_Uintptr | Other_Complex64 | Other_Complex128 | Other_Chan
  | Other_Func | Other_Interface | Other_Map | Other_Pointer | Other_UnsafePointer

datatype gotype =
    T_bool | T_int | T_int8 | T_int16 | T_int32 | T_int64
  | T_uint | T_uint8 | T_uint16 | T_uint32 | T_uint64
  | T_float32 | T_float64 | T_string
  | T_array nat gotype
  | T_slice gotype
  | T_struct "(byte list \<times> gotype) list"
  | T_other OtherKind

datatype govalue =
    V_bool bool
  | V_int "64 word" | V_int8 "8 word" | V_int16 "16 word" | V_int32 "32 word"
  | V_int64 "64 word"
  | V_uint "64 word" | V_uint8 "8 word" | V_uint16 "16 word" | V_uint32 "32 word"
  | V_uint64 "64 word"
  | V_float32 float | V_float64 float
  | V_string "byte list"
  | V_array gotype "govalue list"
  | V_slice gotype "govalue list" nat
  | V_struct "(byte list \<times> govalue) list"
  | V_other OtherKind

text \<open>
  A \<^verbatim>\<open>reflect.Value\<close>: the value it refers to and whether it can be set
  (\<^verbatim>\<open>CanSet\<close>: it is addressable; unexported fields are not modelled).
\<close>

datatype Value = Value (CanSet: bool) (Interface: govalue)

fun OtherKind_Kind :: "OtherKind \<Rightarrow> Kind" where
  "OtherKind_Kind Other_Uintptr = reflect_Uintptr"
| "OtherKind_Kind Other_Complex64 = reflect_Complex64"
| "OtherKind_Kind Other_Complex128 = reflect_Complex128"
| "OtherKind_Kind Other_Chan = reflect_Chan"
| "OtherKind_Kind Other_Func = reflect_Func"
| "OtherKind_Kind Other_Interface = reflect_Interface"
| "OtherKind_Kind Other_Map = reflect_Map"
| "OtherKind_Kind Other_Pointer = reflect_Pointer"
| "OtherKind_Kind Other_UnsafePointer = reflect_UnsafePointer"

fun govalue_Kind :: "govalue \<Rightarrow> Kind" where
  "govalue_Kind (V_bool _) = reflect_Bool"
| "govalue_Kind (V_int _) = reflect_Int"
| "govalue_Kind (V_int8 _) = reflect_Int8"
| "govalue_Kind (V_int16 _) = reflect_Int16"
| "govalue_Kind (V_int32 _) = reflect_Int32"
| "govalue_Kind (V_int64 _) = reflect_Int64"
| "govalue_Kind (V_uint _) = reflect_Uint"
| "govalue_Kind (V_uint8 _) = reflect_Uint8"
| "govalue_Kind (V_uint16 _) = reflect_Uint16"
| "govalue_Kind (V_uint32 _) = reflect_Uint32"
| "govalue_Kind (V_uint64 _) = reflect_Uint64"
| "govalue_Kind (V_float32 _) = reflect_Float32"
| "govalue_Kind (V_float64 _) = reflect_Float64"
| "govalue_Kind (V_string _) = reflect_String"
| "govalue_Kind (V_array _ _) = reflect_Array"
| "govalue_Kind (V_slice _ _ _) = reflect_Slice"
| "govalue_Kind (V_struct _) = reflect_Struct"
| "govalue_Kind (V_other k) = OtherKind_Kind k"

definition Kind :: "Value \<Rightarrow> Kind" where
  "Kind v = govalue_Kind (Interface v)"

text \<open>\<^verbatim>\<open>reflect.Zero\<close>: the zero value of a type. The \<^verbatim>\<open>reflect.Value\<close> it returns is
  neither addressable nor settable.\<close>

primrec zero :: "gotype \<Rightarrow> govalue" where
  "zero T_bool = V_bool False"
| "zero T_int = V_int 0"
| "zero T_int8 = V_int8 0"
| "zero T_int16 = V_int16 0"
| "zero T_int32 = V_int32 0"
| "zero T_int64 = V_int64 0"
| "zero T_uint = V_uint 0"
| "zero T_uint8 = V_uint8 0"
| "zero T_uint16 = V_uint16 0"
| "zero T_uint32 = V_uint32 0"
| "zero T_uint64 = V_uint64 0"
| "zero T_float32 = V_float32 (Float32frombits 0)"
| "zero T_float64 = V_float64 (Float64frombits 0)"
| "zero T_string = V_string []"
| "zero (T_array n t) = V_array t (replicate n (zero t))"
| "zero (T_slice t) = V_slice t [] 0"
| "zero (T_struct fs) = V_struct (map (map_prod id zero) fs)"
| "zero (T_other k) = V_other k"

definition Zero :: "gotype \<Rightarrow> Value" where
  "Zero t = Value False (zero t)"

subsection \<open>The operations of package reflect that the decoder calls\<close>

text \<open>
  Each setter first requires the value to be settable, then dispatches on its kind, and
  stores its 64-bit argument converted to the width of the slot.
\<close>

definition SetBool :: "Value \<Rightarrow> bool \<Rightarrow> error + Value" where
  "SetBool v x =
     (if \<not> CanSet v then Inl (ReflectPanic (UsingUnaddressableValue ''SetBool''))
      else (case Interface v of
              V_bool _ \<Rightarrow> Inr (Value True (V_bool x))
            | _ \<Rightarrow> Inl (ReflectPanic (ValueError ''SetBool'' (Kind v)))))"

definition SetInt :: "Value \<Rightarrow> 64 word \<Rightarrow> error + Value" where
  "SetInt v x =
     (if \<not> CanSet v then Inl (ReflectPanic (UsingUnaddressableValue ''SetInt''))
      else (case Interface v of
              V_int _ \<Rightarrow> Inr (Value True (V_int x))
            | V_int8 _ \<Rightarrow> Inr (Value True (V_int8 (ucast x)))
            | V_int16 _ \<Rightarrow> Inr (Value True (V_int16 (ucast x)))
            | V_int32 _ \<Rightarrow> Inr (Value True (V_int32 (ucast x)))
            | V_int64 _ \<Rightarrow> Inr (Value True (V_int64 x))
            | _ \<Rightarrow> Inl (ReflectPanic (ValueError ''SetInt'' (Kind v)))))"

definition SetUint :: "Value \<Rightarrow> 64 word \<Rightarrow> error + Value" where
  "SetUint v x =
     (if \<not> CanSet v then Inl (ReflectPanic (UsingUnaddressableValue ''SetUint''))
      else (case Interface v of
              V_uint _ \<Rightarrow> Inr (Value True (V_uint x))
            | V_uint8 _ \<Rightarrow> Inr (Value True (V_uint8 (ucast x)))
            | V_uint16 _ \<Rightarrow> Inr (Value True (V_uint16 (ucast x)))
            | V_uint32 _ \<Rightarrow> Inr (Value True (V_uint32 (ucast x)))
            | V_uint64 _ \<Rightarrow> Inr (Value True (V_uint64 x))
            | V_other Other_Uintptr \<Rightarrow> Inr v
            | _ \<Rightarrow> Inl (ReflectPanic (ValueError ''SetUint'' (Kind v)))))"

text \<open>
  The conversion \<^verbatim>\<open>float64(value)\<close> of a \<^verbatim>\<open>float32\<close>. Every \<^verbatim>\<open>float32\<close> is a
  \<^verbatim>\<open>float64\<close>, and the result is given by the bits of the \<^verbatim>\<open>float32\<close> it equals. The
  conversion turns a signalling NaN (exponent bits all set, mantissa not zero, its top
  bit clear) into the quiet NaN with that bit set, as the conversion instructions of
  amd64 and arm64 do: \<^verbatim>\<open>7F800001\<close> becomes \<^verbatim>\<open>7FC00001\<close>. Every other value keeps its
  bits.
\<close>

definition float64_of_float32 :: "32 word \<Rightarrow> float" where
  "float64_of_float32 w =
     Float32frombits
       (if w AND 0x7F800000 = 0x7F800000 \<and> w AND 0x007FFFFF \<noteq> 0
        then w OR 0x00400000 else w)"

text \<open>
  \<^verbatim>\<open>SetFloat\<close> stores \<^verbatim>\<open>float32(x)\<close> in a \<^verbatim>\<open>float32\<close> slot. \<^verbatim>\<open>readValue\<close> passes it a
  widened \<^verbatim>\<open>float32\<close> only for a \<^verbatim>\<open>float32\<close> slot, where narrowing gives that
  \<^verbatim>\<open>float32\<close> back, and a \<^verbatim>\<open>float64\<close> only for a \<^verbatim>\<open>float64\<close> slot, which takes it
  as it is; the rounding of the other two combinations is not modelled.
\<close>

definition SetFloat :: "Value \<Rightarrow> float \<Rightarrow> error + Value" where
  "SetFloat v x =
     (if \<not> CanSet v then Inl (ReflectPanic (UsingUnaddressableValue ''SetFloat''))
      else (case Interface v of
              V_float32 _ \<Rightarrow> Inr (Value True (V_float32 x))
            | V_float64 _ \<Rightarrow> Inr (Value True (V_float64 x))
            | _ \<Rightarrow> Inl (ReflectPanic (ValueError ''SetFloat'' (Kind v)))))"

definition SetString :: "Value \<Rightarrow> byte list \<Rightarrow> error + Value" where
  "SetString v x =
     (if \<not> CanSet v then Inl (ReflectPanic (UsingUnaddressableValue ''SetString''))
      else (case Interface v of
              V_string _ \<Rightarrow> Inr (Value True (V_string x))
            | _ \<Rightarrow> Inl (ReflectPanic (ValueError ''SetString'' (Kind v)))))"

text \<open>
  \<^verbatim>\<open>v.Set(x)\<close>. Its check that the type of \<open>x\<close> is assignable to the type of \<open>v\<close> is
  left out: \<^verbatim>\<open>readValue\<close> only ever sets a slice to a slice of the same type.
\<close>

definition Set :: "Value \<Rightarrow> Value \<Rightarrow> error + Value" where
  "Set v x =
     (if \<not> CanSet v then Inl (ReflectPanic (UsingUnaddressableValue ''Set''))
      else Inr (Value True (Interface x)))"

text \<open>
  \<^verbatim>\<open>Len\<close> and \<^verbatim>\<open>Cap\<close> panic on kinds that have none; \<^verbatim>\<open>readValue\<close> calls them under
  \<^verbatim>\<open>case reflect.Array\<close> and \<^verbatim>\<open>case reflect.Slice\<close> only, and so does \<open>Type_Elem\<close>, the
  element type \<^verbatim>\<open>v.Type().Elem()\<close>.
\<close>

definition Len :: "Value \<Rightarrow> nat" where
  "Len v = (case Interface v of
              V_array _ xs \<Rightarrow> length xs
            | V_slice _ _ n \<Rightarrow> n
            | V_string s \<Rightarrow> length s
            | _ \<Rightarrow> 0)"

definition Cap :: "Value \<Rightarrow> nat" where
  "Cap v = (case Interface v of
              V_array _ xs \<Rightarrow> length xs
            | V_slice _ b _ \<Rightarrow> length b
            | _ \<Rightarrow> 0)"

definition Type_Elem :: "Value \<Rightarrow> gotype" where
  "Type_Elem v = (case Interface v of
                    V_array t _ \<Rightarrow> t
                  | V_slice t _ _ \<Rightarrow> t
                  | _ \<Rightarrow> T_other Other_Interface)"

text \<open>
  \<^verbatim>\<open>reflect.MakeSlice(typ, len, cap)\<close>, given the element type of \<open>typ\<close>: a fresh backing
  array of \<open>cap\<close> zero values. Both calls in \<^verbatim>\<open>readValue\<close> have \<open>len \<le> cap\<close>.
\<close>

definition MakeSlice :: "gotype \<Rightarrow> nat \<Rightarrow> nat \<Rightarrow> Value" where
  "MakeSlice t len cap = Value False (V_slice t (replicate cap (zero t)) len)"

text \<open>
  \<^verbatim>\<open>v.Slice(i, j)\<close>: the window from \<open>i\<close> to \<open>j\<close> on the storage of \<open>v\<close>, up to its
  capacity. Its cells are cells of \<open>v\<close>: what is written through it is written to \<open>v\<close>
  (\<open>store\<close> below).
\<close>

definition Slice :: "Value \<Rightarrow> nat \<Rightarrow> nat \<Rightarrow> error + Value" where
  "Slice v i j =
     (case Interface v of
        V_array t xs \<Rightarrow>
          if \<not> CanSet v then Inl (ReflectPanic SliceOfUnaddressableArray)
          else if i \<le> j \<and> j \<le> length xs
          then Inr (Value False (V_slice t (drop i xs) (j - i)))
          else Inl (ReflectPanic SliceIndexOutOfBounds)
      | V_slice t b n \<Rightarrow>
          if i \<le> j \<and> j \<le> length b
          then Inr (Value False (V_slice t (drop i b) (j - i)))
          else Inl (ReflectPanic SliceIndexOutOfBounds)
      | V_string s \<Rightarrow>
          if i \<le> j \<and> j \<le> length s
          then Inr (Value False (V_string (take (j - i) (drop i s))))
          else Inl (ReflectPanic SliceIndexOutOfBounds)
      | _ \<Rightarrow> Inl (ReflectPanic (ValueError ''Slice'' (Kind v))))"

text \<open>\<^verbatim>\<open>v.Bytes()\<close> of a slice: its \<open>Len\<close> cells as a \<^verbatim>\<open>[]byte\<close>, if its elements are
  bytes.\<close>

definition Bytes :: "Value \<Rightarrow> error + byte list" where
  "Bytes v =
     (case Interface v of
        V_slice t b n \<Rightarrow>
          if t = T_uint8
          then Inr (map (\<lambda>x. case x of V_uint8 w \<Rightarrow> w | _ \<Rightarrow> 0) (take n b))
          else Inl (ReflectPanic BytesOfNonByteSlice)
      | _ \<Rightarrow> Inl (ReflectPanic (ValueError ''Bytes'' (Kind v))))"

text \<open>
  The effect on \<open>v\<close> of a \<^verbatim>\<open>Read\<close> into \<^verbatim>\<open>v.Slice(0, j).Bytes()\<close> that delivered the
  bytes \<open>bs\<close>: they replace the first \<open>length bs\<close> cells of the storage of \<open>v\<close>; the
  length of a slice \<open>v\<close> stays what it was.
\<close>

definition store :: "govalue \<Rightarrow> byte list \<Rightarrow> govalue" where
  "store x bs =
     (case x of
        V_array t xs \<Rightarrow> V_array t (map V_uint8 bs @ drop (length bs) xs)
      | V_slice t b n \<Rightarrow> V_slice t (map V_uint8 bs @ drop (length bs) b) n
      | _ \<Rightarrow> x)"

text \<open>
  \<^verbatim>\<open>reflect.Append(s, x)\<close>: \<open>x\<close> goes into cell \<open>Len s\<close> of the backing array when the
  capacity allows. Otherwise Go allocates a larger array, of a capacity its runtime
  chooses; the model takes the smallest one. \<^verbatim>\<open>readValue\<close> reserves the capacity for
  all elements before it appends.
\<close>

definition Append :: "Value \<Rightarrow> Value \<Rightarrow> error + Value" where
  "Append s x =
     (case Interface s of
        V_slice t b n \<Rightarrow>
          if n < length b then Inr (Value False (V_slice t (b[n := Interface x]) (Suc n)))
          else Inr (Value False (V_slice t (take n b @ [Interface x]) (Suc n)))
      | _ \<Rightarrow> Inl (ReflectPanic (ValueError ''Append'' (Kind s))))"

text \<open>
  Modelled from the spec: \<^verbatim>\<open>parseStruct\<close> is not in \<^verbatim>\<open>decode.go\<close>. Given a composite
  value it yields the mapping from field name to the mutable, typed slot of that field.
  A slot is a reference into the struct: \<open>assign\<close> is the struct after a write through
  the slot of \<open>name\<close>.
\<close>

definition parseStruct :: "Value \<Rightarrow> byte list \<Rightarrow> Value option" where
  "parseStruct v name =
     (case Interface v of
        V_struct fs \<Rightarrow> map_option (Value (CanSet v)) (map_of fs name)
      | _ \<Rightarrow> None)"

fun assign_field :: "byte list \<Rightarrow> govalue \<Rightarrow> (byte list \<times> govalue) list
    \<Rightarrow> (byte list \<times> govalue) list" where
  "assign_field name x [] = []"
| "assign_field name x (f # fs) =
     (if fst f = name then (name, x) # fs else f # assign_field name x fs)"

definition assign :: "Value \<Rightarrow> byte list \<Rightarrow> Value \<Rightarrow> Value" where
  "assign v name field =
     (case Interface v of
        V_struct fs \<Rightarrow> Value (CanSet v) (V_struct (assign_field name (Interface field) fs))
      | _ \<Rightarrow> v)"

subsection \<open>The stream reader\<close>

text \<open>
  \<^verbatim>\<open>d.r(&x)\<close> is \<^verbatim>\<open>binary.Read(d.in, binary.BigEndian, &x)\<close>: it reads the \<open>width\<close>
  bytes of \<open>x\<close> in full and yields the unsigned big-endian value of these bytes (the
  caller takes it at the type of \<open>x\<close>); an error of the stream is a panic.
\<close>

definition BigEndian :: "byte list \<Rightarrow> nat" where
  "BigEndian bs = foldl (\<lambda>a b. a * 256 + unat b) 0 bs"

definition r :: "nat \<Rightarrow> reader \<Rightarrow> error + nat \<times> reader" where
  "r width rd =
     (case ReadFull width [] rd of
        Inl err \<Rightarrow> Inl (IOError err)
      | Inr (bs, rd') \<Rightarrow> Inr (BigEndian bs, rd'))"

text \<open>
  \<^verbatim>\<open>readString\<close> reads the 2-byte length, makes a zeroed buffer of that length and
  calls \<^verbatim>\<open>d.in.Read\<close> on it once, ignoring the count it returns.
\<close>

definition readString :: "reader \<Rightarrow> error + byte list \<times> reader" where
  "readString rd =
     (case r 2 rd of
        Inl e \<Rightarrow> Inl e
      | Inr (len, rd1) \<Rightarrow>
          (case Read len rd1 of
             (bs, Some err, rd2) \<Rightarrow> Inl (IOError err)
           | (bs, None, rd2) \<Rightarrow> Inr (bs @ replicate (len - length bs) 0, rd2)))"

definition readTag :: "reader \<Rightarrow> error + (byte list \<times> Tag) \<times> reader" where
  "readTag rd =
     (case r 1 rd of
        Inl e \<Rightarrow> Inl e
      | Inr (t, rd1) \<Rightarrow>
          if word_of_nat t = TAG_End then Inr (([], word_of_nat t), rd1)
          else (case readString rd1 of
                  Inl e \<Rightarrow> Inl e
                | Inr (name, rd2) \<Rightarrow> Inr ((name, word_of_nat t), rd2)))"

subsection \<open>The tag decoder\<close>

text \<open>
  The result of a decoding step: \<open>None\<close> when the fuel does not suffice, \<open>Some (Inl e)\<close>
  for a panic with \<open>e\<close>, \<open>Some (Inr (v, rd))\<close> for a normal return that leaves the
  destination as \<open>v\<close> and the stream as \<open>rd\<close>.
\<close>

type_synonym 'a res = "(error + 'a) option"

definition panic :: "error \<Rightarrow> 'a res" where
  "panic e = Some (Inl e)"

definition put :: "error + Value \<Rightarrow> reader \<Rightarrow> (Value \<times> reader) res" where
  "put w rd = (case w of Inl e \<Rightarrow> Some (Inl e) | Inr v \<Rightarrow> Some (Inr (v, rd)))"

text \<open>
  The byte-array case reads into the first \<open>length\<close> cells of the destination, with one
  call of \<^verbatim>\<open>d.in.Read\<close> whose count is ignored.
\<close>

definition read_into :: "Value \<Rightarrow> nat \<Rightarrow> reader \<Rightarrow> (Value \<times> reader) res" where
  "read_into v len rd =
     (case Slice v 0 len of
        Inl e \<Rightarrow> panic e
      | Inr w \<Rightarrow>
          (case Bytes w of
             Inl e \<Rightarrow> panic e
           | Inr p \<Rightarrow>
               (case Read (length p) rd of
                  (bs, Some err, rd') \<Rightarrow> panic (IOError err)
                | (bs, None, rd') \<Rightarrow>
                    Some (Inr (Value (CanSet v) (store (Interface v) bs), rd')))))"

text \<open>
  \<^verbatim>\<open>readValue\<close>, with its two loops as functions of their own: \<open>readList\<close> is the
  \<^verbatim>\<open>for i := uint32(0); i < length; i++\<close> of the list case, with \<open>k\<close> the iterations still
  to run, and \<open>readCompound\<close> the \<^verbatim>\<open>for\<close> of the compound case. The fuel bounds the
  iterations of the loops along every path of the recursion; \<open>readValue\<close> itself uses
  none. With more fuel than the weight of the stream (below) the decoder returns, and
  its result is that of any larger fuel. In \<open>readCompound\<close> the mapping \<^verbatim>\<open>fields\<close>,
  computed once in the Go code, holds references into \<open>v\<close>; the model looks the name up
  in the current \<open>v\<close>.
\<close>

function readValue :: "nat \<Rightarrow> Tag \<Rightarrow> Value \<Rightarrow> reader \<Rightarrow> (Value \<times> reader) res"
  and readList :: "nat \<Rightarrow> Tag \<Rightarrow> nat \<Rightarrow> gotype \<Rightarrow> Value \<Rightarrow> reader \<Rightarrow> (Value \<times> reader) res"
  and readCompound :: "nat \<Rightarrow> Value \<Rightarrow> reader \<Rightarrow> (Value \<times> reader) res"
where
  "readValue n tag v rd =
     (if Kind v = reflect_Int \<or> Kind v = reflect_Uint then panic NotPortable
      else if tag = TAG_Byte then
        (case r 1 rd of
           Inl e \<Rightarrow> panic e
         | Inr (x, rd1) \<Rightarrow>
             let value = (word_of_nat x :: 8 word) in
             if Kind v = reflect_Bool then put (SetBool v (value \<noteq> 0)) rd1
             else if Kind v = reflect_Int8 then put (SetInt v (scast value)) rd1
             else if Kind v = reflect_Uint8 then put (SetUint v (ucast value)) rd1
             else panic (KindMismatch tag (Kind v)))
      else if tag = TAG_Short then
        (case r 2 rd of
           Inl e \<Rightarrow> panic e
         | Inr (x, rd1) \<Rightarrow>
             let value = (word_of_nat x :: 16 word) in
             if Kind v = reflect_Int16 then put (SetInt v (scast value)) rd1
             else if Kind v = reflect_Uint16 then put (SetUint v (ucast value)) rd1
             else panic (KindMismatch tag (Kind v)))
      else if tag = TAG_Int then
        (case r 4 rd of
           Inl e \<Rightarrow> panic e
         | Inr (x, rd1) \<Rightarrow>
             let value = (word_of_nat x :: 32 word) in
             if Kind v = reflect_Int32
             then put (SetInt v (scast (ucast value :: 16 word))) rd1
             else if Kind v = reflect_Uint32 then put (SetUint v (ucast value)) rd1
             else panic (KindMismatch tag (Kind v)))
      else if tag = TAG_Long then
        (case r 8 rd of
           Inl e \<Rightarrow> panic e
         | Inr (x, rd1) \<Rightarrow>
             let value = (word_of_nat x :: 64 word) in
             if Kind v = reflect_Int64 then put (SetInt v value) rd1
             else if Kind v = reflect_Uint64 then put (SetUint v value) rd1
             else panic (KindMismatch tag (Kind v)))
      else if tag = TAG_Float then
        (case r 4 rd of
           Inl e \<Rightarrow> panic e
         | Inr (x, rd1) \<Rightarrow>
             if Kind v = reflect_Float32
             then put (SetFloat v (float64_of_float32 (word_of_nat x))) rd1
             else panic (KindMismatch tag (Kind v)))
      else if tag = TAG_Double then
        (case r 8 rd of
           Inl e \<Rightarrow> panic e
         | Inr (x, rd1) \<Rightarrow>
             if Kind v = reflect_Float64
             then put (SetFloat v (Float64frombits (word_of_nat x))) rd1
             else panic (KindMismatch tag (Kind v)))
      else if tag = TAG_Byte_Array then
        (case r 4 rd of
           Inl e \<Rightarrow> panic e
         | Inr (x, rd1) \<Rightarrow>
             let len = (word_of_nat x :: 32 word) in
             if Kind v = reflect_Array then
               if (word_of_nat (Len v) :: 32 word) < len
               then panic (ByteArrayTooLong (unat len) (Len v))
               else read_into v (unat len) rd1
             else if Kind v = reflect_Slice then
               (case (if (word_of_nat (Cap v) :: 32 word) < len
                      then Set v (MakeSlice (Type_Elem v) (unat len) (unat len))
                      else Inr v) of
                  Inl e \<Rightarrow> panic e
                | Inr v1 \<Rightarrow> read_into v1 (unat len) rd1)
             else panic (KindMismatch tag (Kind v)))
      else if tag = TAG_String then
        (if Kind v = reflect_String then
           (case readString rd of
              Inl e \<Rightarrow> panic e
            | Inr (s, rd1) \<Rightarrow> put (SetString v s) rd1)
         else panic (KindMismatch tag (Kind v)))
      else if tag = TAG_List then
        (case r 1 rd of
           Inl e \<Rightarrow> panic e
         | Inr (x, rd1) \<Rightarrow>
             (case r 4 rd1 of
                Inl e \<Rightarrow> panic e
              | Inr (y, rd2) \<Rightarrow>
                  let inner = (word_of_nat x :: Tag); len = (word_of_nat y :: 32 word) in
                  if Kind v = reflect_Slice then
                    (case (if (word_of_nat (Cap v) :: 32 word) < len
                           then Set v (MakeSlice (Type_Elem v) 0 (unat len))
                           else (case Slice v 0 0 of Inl e \<Rightarrow> Inl e | Inr w \<Rightarrow> Set v w)) of
                       Inl e \<Rightarrow> panic e
                     | Inr v1 \<Rightarrow> readList n inner (unat len) (Type_Elem v1) v1 rd2)
                  else panic (KindMismatch tag (Kind v))))
      else if tag = TAG_Compound then
        (if Kind v = reflect_Struct then readCompound n v rd
         else panic (KindMismatch tag (Kind v)))
      else panic (UnhandledTag tag))"
| "readList n inner k kind v rd =
     (if k = 0 then Some (Inr (v, rd))
      else (case n of
              0 \<Rightarrow> None
            | Suc m \<Rightarrow>
                (case readValue m inner (Zero kind) rd of
                   None \<Rightarrow> None
                 | Some (Inl e) \<Rightarrow> panic e
                 | Some (Inr (value, rd1)) \<Rightarrow>
                     (case Append v value of
                        Inl e \<Rightarrow> panic e
                      | Inr w \<Rightarrow>
                          (case Set v w of
                             Inl e \<Rightarrow> panic e
                           | Inr v1 \<Rightarrow> readList m inner (k - 1) kind v1 rd1)))))"
| "readCompound n v rd =
     (case n of
        0 \<Rightarrow> None
      | Suc m \<Rightarrow>
          (case readTag rd of
             Inl e \<Rightarrow> panic e
           | Inr ((name, tag), rd1) \<Rightarrow>
               if tag = TAG_End then Some (Inr (v, rd1))
               else (case parseStruct v name of
                       Some field \<Rightarrow>
                         (case readValue m tag field rd1 of
                            None \<Rightarrow> None
                          | Some (Inl e) \<Rightarrow> panic e
                          | Some (Inr (field', rd2)) \<Rightarrow>
                              readCompound m (assign v name field') rd2)
                     | None \<Rightarrow> panic (UnhandledField tag name))))"
  by pat_completeness auto
termination
  by (relation "measure (\<lambda>x. case x of
        Inl (n, _) \<Rightarrow> 2 * n + 1
      | Inr (Inl (n, _)) \<Rightarrow> 2 * n
      | Inr (Inr (n, _)) \<Rightarrow> 2 * n)") auto

declare readValue.simps [simp del] readList.simps [simp del] readCompound.simps [simp del]

subsection \<open>The entry point\<close>

text \<open>
  \<^verbatim>\<open>init\<close> takes the two decompressor constructors \<^verbatim>\<open>gzip.NewReader\<close> and
  \<^verbatim>\<open>zlib.NewReader\<close>, which are outside the repository, as the parameters \<open>gz\<close> and
  \<open>zl\<close>: each returns the reader of the decompressed bytes or an error. The state
  \<^verbatim>\<open>decodeState\<close> has the one field \<^verbatim>\<open>in\<close> and is modelled as that reader. A nil
  \<^verbatim>\<open>io.Reader\<close> is \<open>None\<close>.
\<close>

type_synonym decodeState = reader

definition init :: "(reader \<Rightarrow> error + reader) \<Rightarrow> (reader \<Rightarrow> error + reader)
    \<Rightarrow> Compression \<Rightarrow> reader option \<Rightarrow> error + decodeState" where
  "init gz zl compression inp =
     (case inp of
        None \<Rightarrow> Inl NilInput
      | Some rd \<Rightarrow>
          (case compression of
             Uncompressed \<Rightarrow> Inr rd
           | GZip \<Rightarrow> (case gz rd of Inl err \<Rightarrow> Inl err | Inr d \<Rightarrow> Inr d)
           | ZLib \<Rightarrow> (case zl rd of Inl err \<Rightarrow> Inl err | Inr d \<Rightarrow> Inr d)
           | OtherCompression k \<Rightarrow> Inl (UnknownCompression compression)))"

text \<open>
  \<^verbatim>\<open>unmarshal\<close> decodes into \<^verbatim>\<open>reflect.ValueOf(v).Elem()\<close>, the settable value behind the
  pointer \<^verbatim>\<open>v\<close> that the caller passes; the model is given that value.
\<close>

definition unmarshal :: "nat \<Rightarrow> decodeState \<Rightarrow> govalue \<Rightarrow> (Value \<times> reader) res" where
  "unmarshal n d v =
     (case readTag d of
        Inl e \<Rightarrow> panic e
      | Inr ((name, tag), d1) \<Rightarrow> readValue n tag (Value True v) d1)"

text \<open>
  \<^verbatim>\<open>Unmarshal\<close> returns the recovered panic as its error, or nil, which is \<open>Inr\<close> with
  the destination as the decoding left it.
\<close>

definition Unmarshal :: "nat \<Rightarrow> (reader \<Rightarrow> error + reader) \<Rightarrow> (reader \<Rightarrow> error + reader)
    \<Rightarrow> Compression \<Rightarrow> reader option \<Rightarrow> govalue \<Rightarrow> govalue res" where
  "Unmarshal n gz zl compression inp v =
     (case init gz zl compression inp of
        Inl err \<Rightarrow> Some (Inl err)
      | Inr d \<Rightarrow>
          (case unmarshal n d v of
             None \<Rightarrow> None
           | Some (Inl err) \<Rightarrow> Some (Inl err)
           | Some (Inr (v', d')) \<Rightarrow> Some (Inr (Interface v'))))"

text \<open>
  The entry headers the loop of \<open>readCompound\<close> gets to read: \<open>reads_entry n v rd name tag\<close>
  holds when the loop, started with fuel \<open>n\<close> on the composite \<open>v\<close> and the stream \<open>rd\<close>,
  reads in some iteration an entry header with the name \<open>name\<close> and the tag \<open>tag\<close>, other
  than End. That is so in its first iteration, or in a later one when the first
  iteration's entry names a field and is decoded into it.
\<close>

fun reads_entry :: "nat \<Rightarrow> Value \<Rightarrow> reader \<Rightarrow> byte list \<Rightarrow> Tag \<Rightarrow> bool" where
  "reads_entry 0 v rd name tag = False"
| "reads_entry (Suc m) v rd name tag =
     (case readTag rd of
        Inl e \<Rightarrow> False
      | Inr ((name0, tag0), rd1) \<Rightarrow>
          tag0 \<noteq> TAG_End \<and>
          (name0 = name \<and> tag0 = tag \<or>
           (case parseStruct v name0 of
              None \<Rightarrow> False
            | Some field \<Rightarrow>
                (case readValue m tag0 field rd1 of
                   Some (Inr (field', rd2)) \<Rightarrow>
                     reads_entry m (assign v name0 field') rd2 name tag
                 | _ \<Rightarrow> False))))"

text \<open>
  The weight of a reader counts its bytes and its chunks: every call of \<^verbatim>\<open>Read\<close> for
  at least one byte that returns without an error takes a byte or a chunk away.
\<close>

definition weight :: "reader \<Rightarrow> nat" where
  "weight rd = sum_list (map (\<lambda>c. Suc (length c)) rd)"

section \<open>Properties\<close>

subsection \<open>Auxiliary facts\<close>

lemmas TAG_defs = TAG_End_def TAG_Byte_def TAG_Short_def TAG_Int_def TAG_Long_def
  TAG_Float_def TAG_Double_def TAG_Byte_Array_def TAG_String_def TAG_List_def
  TAG_Compound_def TAG_Int_Array_def

text \<open>A successful \<open>ReadFull\<close> returns exactly the bytes asked for.\<close>

lemma ReadFull_length:
  "ReadFull want got rd = Inr (bs, rd') \<Longrightarrow> length got \<le> want \<Longrightarrow> length bs = want"
proof (induction want got rd rule: ReadFull.induct)
  case (1 want got rd)
  show ?case
  proof (cases "want \<le> length got")
    case True
    with "1.prems" show ?thesis by (simp add: ReadFull.simps)
  next
    case False
    show ?thesis
    proof (cases rd)
      case Nil
      with False "1.prems" show ?thesis
        by (simp add: ReadFull.simps split: if_splits)
    next
      case (Cons c cs)
      let ?k = "want - length got"
      let ?rest = "if drop ?k c = [] then cs else drop ?k c # cs"
      have R: "Read ?k rd = (take ?k c, None, ?rest)"
        using Cons by simp
      have "ReadFull want (got @ take ?k c) ?rest = Inr (bs, rd')"
        using "1.prems"(1) False R by (subst (asm) ReadFull.simps) simp
      moreover have "length (got @ take ?k c) \<le> want"
        using False by simp
      ultimately show ?thesis
        using "1.IH" [OF False R [symmetric] refl refl] by blast
    qed
  qed
qed

text \<open>The value \<open>r\<close> yields fits the width read, so it is a word of that width.\<close>

lemma foldl_BigEndian_less:
  "foldl (\<lambda>a b. a * 256 + unat (b :: byte)) a bs < (a + 1) * 256 ^ length bs"
proof (induction bs arbitrary: a)
  case Nil
  show ?case by simp
next
  case (Cons b bs)
  have "unat b < 256"
    using unsigned_less [of b] by simp
  then have "a * 256 + unat b + 1 \<le> (a + 1) * 256"
    by simp
  then have "(a * 256 + unat b + 1) * 256 ^ length bs \<le> (a + 1) * 256 * 256 ^ length bs"
    by (rule mult_le_mono1)
  with Cons.IH [of "a * 256 + unat b"]
  have "foldl (\<lambda>a b. a * 256 + unat (b :: byte)) (a * 256 + unat b) bs
          < (a + 1) * 256 * 256 ^ length bs"
    by (rule less_le_trans)
  then show ?case
    by (simp add: algebra_simps)
qed

lemma r_less:
  assumes "r width rd = Inr (x, rd')"
  shows "x < 256 ^ width"
proof -
  from assms obtain bs where bs: "ReadFull width [] rd = Inr (bs, rd')" and x: "x = BigEndian bs"
    by (auto simp: r_def split: sum.splits)
  from ReadFull_length [OF bs] have "length bs = width"
    by simp
  with foldl_BigEndian_less [of 0 bs] x show ?thesis
    by (simp add: BigEndian_def)
qed

lemma r_1_byte:
  assumes "r 1 rd = Inr (x, rd')"
  shows "x = unat (word_of_nat x :: byte)"
  using r_less [OF assms] by (simp add: unat_of_nat)

lemma r_4_word:
  assumes "r 4 rd = Inr (x, rd')"
  shows "x = unat (word_of_nat x :: 32 word)"
  using r_less [OF assms] by (simp add: unat_of_nat)

lemma ucast_scast_byte: "ucast (scast (b :: 8 word) :: 64 word) = b"
proof -
  have "(ucast :: 64 word \<Rightarrow> 8 word) = scast"
    by (rule down_cast_same) (simp add: is_down)
  then show ?thesis
    by (simp add: scast_up_scast_id is_up)
qed

lemma sint_byte:
  "sint (b :: 8 word) = (if unat b < 128 then int (unat b) else int (unat b) - 256)"
proof -
  have u: "uint b = sint b mod 256"
    using uint_sint [of b] by (simp add: take_bit_eq_mod)
  have lo: "- 128 \<le> sint b"
    using sint_ge [of b] by simp
  have hi: "sint b < 128"
    using sint_lt [of b] by simp
  have n: "int (unat b) = uint b"
    by simp
  have m: "unat b < 128 \<longleftrightarrow> uint b < 128"
    using n by linarith
  from u lo hi show ?thesis
    unfolding n m by presburger
qed

subsection \<open>Fuel\<close>

text \<open>
  The fuel does not take part in the result: a result reached with some fuel is the
  result with any larger fuel. Only the list and compound cases pass the fuel on.
\<close>

lemma readValue_List_eq:
  "readValue n TAG_List v rd =
     (if Kind v = reflect_Int \<or> Kind v = reflect_Uint then panic NotPortable
      else (case r 1 rd of
           Inl e \<Rightarrow> panic e
         | Inr (x, rd1) \<Rightarrow>
             (case r 4 rd1 of
                Inl e \<Rightarrow> panic e
              | Inr (y, rd2) \<Rightarrow>
                  if Kind v = reflect_Slice then
                    (case (if (word_of_nat (Cap v) :: 32 word) < word_of_nat y
                           then Set v (MakeSlice (Type_Elem v) 0 (unat (word_of_nat y :: 32 word)))
                           else (case Slice v 0 0 of Inl e \<Rightarrow> Inl e | Inr w \<Rightarrow> Set v w)) of
                       Inl e \<Rightarrow> panic e
                     | Inr v1 \<Rightarrow> readList n (word_of_nat x) (unat (word_of_nat y :: 32 word))
                                  (Type_Elem v1) v1 rd2)
                  else panic (KindMismatch TAG_List (Kind v)))))"
  by (subst readValue.simps) (simp add: TAG_defs Let_def split: sum.splits prod.splits)

lemma readValue_Compound_eq:
  "readValue n TAG_Compound v rd =
     (if Kind v = reflect_Int \<or> Kind v = reflect_Uint then panic NotPortable
      else if Kind v = reflect_Struct then readCompound n v rd
      else panic (KindMismatch TAG_Compound (Kind v)))"
  by (subst readValue.simps) (simp add: TAG_defs)

lemma readValue_fuel_irrelevant:
  assumes "tag \<noteq> TAG_List" and "tag \<noteq> TAG_Compound"
  shows "readValue n tag v rd = readValue m tag v rd"
  using assms
  by (simp add: readValue.simps [of n tag v rd] readValue.simps [of m tag v rd])

lemma readValue_fuel_Suc:
  assumes L: "\<And>inner k kind v rd x. readList n inner k kind v rd = Some x
                \<Longrightarrow> readList (Suc n) inner k kind v rd = Some x"
    and C: "\<And>v rd x. readCompound n v rd = Some x \<Longrightarrow> readCompound (Suc n) v rd = Some x"
    and V: "readValue n tag v rd = Some x"
  shows "readValue (Suc n) tag v rd = Some x"
proof -
  consider "tag = TAG_List" | "tag = TAG_Compound" | "tag \<noteq> TAG_List" "tag \<noteq> TAG_Compound"
    by blast
  then show ?thesis
  proof cases
    case 1
    from V show ?thesis
      unfolding 1 readValue_List_eq [of n] readValue_List_eq [of "Suc n"]
      by (auto split: sum.splits prod.splits if_splits simp: panic_def intro: L)
  next
    case 2
    from V show ?thesis
      unfolding 2 readValue_Compound_eq [of n] readValue_Compound_eq [of "Suc n"]
      by (auto split: if_splits simp: panic_def intro: C)
  next
    case 3
    with V show ?thesis
      using readValue_fuel_irrelevant [of tag "Suc n" v rd n] by simp
  qed
qed

lemma readList_fuel_Suc:
  assumes V: "\<And>tag v rd x. readValue m tag v rd = Some x \<Longrightarrow> readValue (Suc m) tag v rd = Some x"
    and L: "\<And>inner k kind v rd x. readList m inner k kind v rd = Some x
                \<Longrightarrow> readList (Suc m) inner k kind v rd = Some x"
    and R: "readList (Suc m) inner k kind v rd = Some x"
  shows "readList (Suc (Suc m)) inner k kind v rd = Some x"
proof (cases "k = 0")
  case True
  with R show ?thesis
    by (simp add: readList.simps [of "Suc m"] readList.simps [of "Suc (Suc m)"])
next
  case False
  from R False obtain y where y: "readValue m inner (Zero kind) rd = Some y"
    by (cases "readValue m inner (Zero kind) rd") (simp_all add: readList.simps [of "Suc m"])
  note y' = V [OF y]
  from R False y have "(case y of
           Inl e \<Rightarrow> panic e
         | Inr (value, rd1) \<Rightarrow>
             (case Append v value of
                Inl e \<Rightarrow> panic e
              | Inr w \<Rightarrow>
                  (case Set v w of
                     Inl e \<Rightarrow> panic e
                   | Inr v1 \<Rightarrow> readList m inner (k - 1) kind v1 rd1))) = Some x"
    by (simp add: readList.simps [of "Suc m"])
  then have "(case y of
           Inl e \<Rightarrow> panic e
         | Inr (value, rd1) \<Rightarrow>
             (case Append v value of
                Inl e \<Rightarrow> panic e
              | Inr w \<Rightarrow>
                  (case Set v w of
                     Inl e \<Rightarrow> panic e
                   | Inr v1 \<Rightarrow> readList (Suc m) inner (k - 1) kind v1 rd1))) = Some x"
    by (auto split: sum.splits prod.splits intro: L)
  with False y' show ?thesis
    by (simp add: readList.simps [of "Suc (Suc m)"])
qed

lemma readCompound_fuel_Suc:
  assumes V: "\<And>tag v rd x. readValue m tag v rd = Some x \<Longrightarrow> readValue (Suc m) tag v rd = Some x"
    and C: "\<And>v rd x. readCompound m v rd = Some x \<Longrightarrow> readCompound (Suc m) v rd = Some x"
    and R: "readCompound (Suc m) v rd = Some x"
  shows "readCompound (Suc (Suc m)) v rd = Some x"
proof (cases "readTag rd")
  case (Inl e)
  with R show ?thesis
    by (simp add: readCompound.simps [of "Suc m"] readCompound.simps [of "Suc (Suc m)"])
next
  case (Inr h)
  obtain name tag rd1 where h: "h = ((name, tag), rd1)"
    by (cases h) auto
  show ?thesis
  proof (cases "tag = TAG_End \<or> parseStruct v name = None")
    case True
    with R Inr h show ?thesis
      by (auto simp: readCompound.simps [of "Suc m"] readCompound.simps [of "Suc (Suc m)"])
  next
    case False
    then obtain field where f: "parseStruct v name = Some field" and t: "tag \<noteq> TAG_End"
      by auto
    from R Inr h f t obtain y where y: "readValue m tag field rd1 = Some y"
      by (cases "readValue m tag field rd1") (simp_all add: readCompound.simps [of "Suc m"])
    note y' = V [OF y]
    from R Inr h f t y have "(case y of
           Inl e \<Rightarrow> panic e
         | Inr (field', rd2) \<Rightarrow> readCompound m (assign v name field') rd2) = Some x"
      by (simp add: readCompound.simps [of "Suc m"])
    then have "(case y of
           Inl e \<Rightarrow> panic e
         | Inr (field', rd2) \<Rightarrow> readCompound (Suc m) (assign v name field') rd2) = Some x"
      by (auto split: sum.splits prod.splits intro: C)
    with Inr h f t y' show ?thesis
      by (simp add: readCompound.simps [of "Suc (Suc m)"])
  qed
qed

lemma fuel_Suc:
  "(\<forall>tag v rd x. readValue n tag v rd = Some x \<longrightarrow> readValue (Suc n) tag v rd = Some x)
   \<and> (\<forall>inner k kind v rd x. readList n inner k kind v rd = Some x
         \<longrightarrow> readList (Suc n) inner k kind v rd = Some x)
   \<and> (\<forall>v rd x. readCompound n v rd = Some x \<longrightarrow> readCompound (Suc n) v rd = Some x)"
proof (induction n)
  case 0
  have L: "readList 0 inner k kind v rd = Some x \<Longrightarrow> readList (Suc 0) inner k kind v rd = Some x"
    for inner k kind v rd x
    by (cases "k = 0") (simp_all add: readList.simps [of 0] readList.simps [of "Suc 0"])
  have C: "readCompound 0 v rd = Some x \<Longrightarrow> readCompound (Suc 0) v rd = Some x" for v rd x
    by (simp add: readCompound.simps [of 0])
  from L C readValue_fuel_Suc [of 0, OF L C] show ?case
    by blast
next
  case (Suc m)
  have L: "readList (Suc m) inner k kind v rd = Some x
            \<Longrightarrow> readList (Suc (Suc m)) inner k kind v rd = Some x" for inner k kind v rd x
    using Suc.IH by (intro readList_fuel_Suc) blast+
  have C: "readCompound (Suc m) v rd = Some x \<Longrightarrow> readCompound (Suc (Suc m)) v rd = Some x"
    for v rd x
    using Suc.IH by (intro readCompound_fuel_Suc) blast+
  from L C readValue_fuel_Suc [of "Suc m", OF L C] show ?case
    by blast
qed

lemma readValue_more_fuel:
  "readValue n tag v rd = Some x \<Longrightarrow> readValue (n + k) tag v rd = Some x"
  using fuel_Suc by (induction k) auto

subsection \<open>Termination\<close>

text \<open>
  Every successful decoding step takes something from the stream, so on a stream of
  weight \<open>w\<close> no loop runs more than \<open>w\<close> iterations: with more fuel than the weight of
  the stream, \<open>readValue\<close> returns.
\<close>

lemma Read_weight:
  assumes "Read n rd = (bs, None, rd')"
  shows "weight rd' \<le> weight rd" and "0 < n \<Longrightarrow> weight rd' < weight rd"
proof -
  from assms obtain c cs where rd: "rd = c # cs"
    by (cases rd) auto
  with assms have rd': "rd' = (if drop n c = [] then cs else drop n c # cs)"
    by simp
  show "weight rd' \<le> weight rd"
    by (simp add: rd rd' weight_def)
  show "weight rd' < weight rd" if "0 < n"
    using that by (cases c) (auto simp: rd rd' weight_def)
qed

lemma ReadFull_weight:
  "ReadFull want got rd = Inr (bs, rd') \<Longrightarrow>
     weight rd' \<le> weight rd \<and> (length got < want \<longrightarrow> weight rd' < weight rd)"
proof (induction want got rd rule: ReadFull.induct)
  case (1 want got rd)
  show ?case
  proof (cases "want \<le> length got")
    case True
    with "1.prems" show ?thesis
      by (simp add: ReadFull.simps)
  next
    case False
    show ?thesis
    proof (cases "Read (want - length got) rd")
      case (fields cs eo rd1)
      show ?thesis
      proof (cases eo)
        case (Some e)
        with fields have "rd = []"
          by (cases rd) auto
        with "1.prems" False show ?thesis
          by (simp add: ReadFull.simps split: if_splits)
      next
        case None
        with fields have R: "Read (want - length got) rd = (cs, None, rd1)"
          by simp
        from "1.prems" False R have "ReadFull want (got @ cs) rd1 = Inr (bs, rd')"
          by (subst (asm) ReadFull.simps) simp
        from "1.IH" [OF False R [symmetric] refl refl this]
        have "weight rd' \<le> weight rd1"
          by simp
        moreover from Read_weight(2) [OF R] False have "weight rd1 < weight rd"
          by simp
        ultimately show ?thesis
          by simp
      qed
    qed
  qed
qed

lemma r_weight:
  assumes "r width rd = Inr (x, rd')" and "0 < width"
  shows "weight rd' < weight rd"
proof -
  from assms(1) obtain bs where "ReadFull width [] rd = Inr (bs, rd')"
    by (auto simp: r_def split: sum.splits)
  from ReadFull_weight [OF this] assms(2) show ?thesis
    by simp
qed

lemma readString_weight:
  assumes "readString rd = Inr (s, rd')"
  shows "weight rd' < weight rd"
proof -
  from assms obtain len rd1 bs where a: "r 2 rd = Inr (len, rd1)"
    and b: "Read len rd1 = (bs, None, rd')"
    by (auto simp: readString_def split: sum.splits prod.splits option.splits)
  from r_weight [OF a] Read_weight(1) [OF b] show ?thesis
    by simp
qed

lemma readTag_weight:
  assumes "readTag rd = Inr (h, rd')"
  shows "weight rd' < weight rd"
proof -
  from assms obtain t rd1 where a: "r 1 rd = Inr (t, rd1)"
    by (auto simp: readTag_def split: sum.splits prod.splits)
  from assms a have "rd' = rd1 \<or> (\<exists>name. readString rd1 = Inr (name, rd'))"
    by (auto simp: readTag_def split: sum.splits prod.splits if_splits)
  with r_weight [OF a] show ?thesis
    by (auto dest: readString_weight)
qed

lemma read_into_weight:
  assumes "read_into v len rd = Some (Inr (v', rd'))"
  shows "weight rd' \<le> weight rd"
proof -
  from assms obtain p bs where "Read p rd = (bs, None, rd')"
    by (auto simp: read_into_def panic_def split: sum.splits prod.splits option.splits)
  from Read_weight(1) [OF this] show ?thesis .
qed

lemma read_into_returns: "\<exists>y. read_into v len rd = Some y"
  by (auto simp: read_into_def panic_def split: sum.splits prod.splits option.splits)

lemma put_returns: "\<exists>y. put w rd = Some y"
  by (simp add: put_def split: sum.splits)

lemma put_weight: "put w rd = Some (Inr (v', rd')) \<Longrightarrow> rd' = rd"
  by (auto simp: put_def split: sum.splits)

text \<open>The cases of \<open>readValue\<close> without a loop return, whatever the fuel, and a normal
  return has read from the stream.\<close>

lemma readValue_flat:
  assumes "tag \<noteq> TAG_List" and "tag \<noteq> TAG_Compound"
  shows "readValue n tag v rd \<noteq> None
       \<and> (\<forall>v' rd'. readValue n tag v rd = Some (Inr (v', rd')) \<longrightarrow> weight rd' < weight rd)"
proof -
  consider "tag = TAG_Byte" | "tag = TAG_Short" | "tag = TAG_Int" | "tag = TAG_Long"
    | "tag = TAG_Float" | "tag = TAG_Double" | "tag = TAG_Byte_Array" | "tag = TAG_String"
    | "tag \<notin> {TAG_Byte, TAG_Short, TAG_Int, TAG_Long, TAG_Float, TAG_Double,
                TAG_Byte_Array, TAG_String, TAG_List, TAG_Compound}"
    using assms by auto
  then show ?thesis
  proof cases
    case 1
    show ?thesis
      unfolding 1 readValue.simps [of n TAG_Byte v rd]
      by (auto simp: TAG_defs panic_def put_returns Let_def
            split: sum.splits prod.splits if_splits dest!: put_weight dest: r_weight)
  next
    case 2
    show ?thesis
      unfolding 2 readValue.simps [of n TAG_Short v rd]
      by (auto simp: TAG_defs panic_def put_returns Let_def
            split: sum.splits prod.splits if_splits dest!: put_weight dest: r_weight)
  next
    case 3
    show ?thesis
      unfolding 3 readValue.simps [of n TAG_Int v rd]
      by (auto simp: TAG_defs panic_def put_returns Let_def
            split: sum.splits prod.splits if_splits dest!: put_weight dest: r_weight)
  next
    case 4
    show ?thesis
      unfolding 4 readValue.simps [of n TAG_Long v rd]
      by (auto simp: TAG_defs panic_def put_returns Let_def
            split: sum.splits prod.splits if_splits dest!: put_weight dest: r_weight)
  next
    case 5
    show ?thesis
      unfolding 5 readValue.simps [of n TAG_Float v rd]
      by (auto simp: TAG_defs panic_def put_returns Let_def
            split: sum.splits prod.splits if_splits dest!: put_weight dest: r_weight)
  next
    case 6
    show ?thesis
      unfolding 6 readValue.simps [of n TAG_Double v rd]
      by (auto simp: TAG_defs panic_def put_returns Let_def
            split: sum.splits prod.splits if_splits dest!: put_weight dest: r_weight)
  next
    case 7
    have "weight rd2 < weight rd"
      if "r 4 rd = Inr (x, rd1)" and "read_into w len rd1 = Some (Inr (v', rd2))"
      for x rd1 w len v' rd2
      using r_weight [OF that(1)] read_into_weight [OF that(2)] by simp
    then show ?thesis
      unfolding 7 readValue.simps [of n TAG_Byte_Array v rd]
      by (auto simp: TAG_defs panic_def read_into_returns Let_def
            split: sum.splits prod.splits if_splits)
  next
    case 8
    show ?thesis
      unfolding 8 readValue.simps [of n TAG_String v rd]
      by (auto simp: TAG_defs panic_def put_returns Let_def
            split: sum.splits prod.splits if_splits dest!: put_weight dest: readString_weight)
  next
    case 9
    then show ?thesis
      unfolding readValue.simps [of n tag v rd]
      by (simp add: panic_def)
  qed
qed

text \<open>A normal return of a decoding step leaves less of the stream (the list loop: no
  more).\<close>

lemma readValue_weight_step:
  assumes L: "\<And>inner k kind v rd v' rd'. readList n inner k kind v rd = Some (Inr (v', rd'))
                \<Longrightarrow> weight rd' \<le> weight rd"
    and C: "\<And>v rd v' rd'. readCompound n v rd = Some (Inr (v', rd'))
                \<Longrightarrow> weight rd' < weight rd"
    and V: "readValue n tag v rd = Some (Inr (v', rd'))"
  shows "weight rd' < weight rd"
proof -
  consider "tag = TAG_List" | "tag = TAG_Compound" | "tag \<noteq> TAG_List" "tag \<noteq> TAG_Compound"
    by blast
  then show ?thesis
  proof cases
    case 1
    from V obtain x rd1 y rd2 inner k kind w
      where a: "r 1 rd = Inr (x, rd1)" and b: "r 4 rd1 = Inr (y, rd2)"
        and c: "readList n inner k kind w rd2 = Some (Inr (v', rd'))"
      unfolding 1 readValue_List_eq [of n]
      by (auto simp: panic_def split: sum.splits prod.splits if_splits)
    from r_weight [OF a] r_weight [OF b] L [OF c] show ?thesis
      by simp
  next
    case 2
    from V have "readCompound n v rd = Some (Inr (v', rd'))"
      unfolding 2 readValue_Compound_eq [of n]
      by (auto simp: panic_def split: if_splits)
    then show ?thesis
      by (rule C)
  next
    case 3
    with V readValue_flat [of tag n v rd] show ?thesis
      by simp
  qed
qed

lemma readList_weight_step:
  assumes V: "\<And>tag v rd v' rd'. readValue m tag v rd = Some (Inr (v', rd'))
                \<Longrightarrow> weight rd' < weight rd"
    and L: "\<And>inner k kind v rd v' rd'. readList m inner k kind v rd = Some (Inr (v', rd'))
                \<Longrightarrow> weight rd' \<le> weight rd"
    and R: "readList (Suc m) inner k kind v rd = Some (Inr (v', rd'))"
  shows "weight rd' \<le> weight rd"
proof (cases "k = 0")
  case True
  with R show ?thesis
    by (simp add: readList.simps [of "Suc m"])
next
  case False
  with R obtain elem rd1 v1
    where a: "readValue m inner (Zero kind) rd = Some (Inr (elem, rd1))"
      and b: "readList m inner (k - 1) kind v1 rd1 = Some (Inr (v', rd'))"
    by (auto simp: readList.simps [of "Suc m"] panic_def
          split: option.splits sum.splits prod.splits)
  from V [OF a] L [OF b] show ?thesis
    by simp
qed

lemma readCompound_weight_step:
  assumes V: "\<And>tag v rd v' rd'. readValue m tag v rd = Some (Inr (v', rd'))
                \<Longrightarrow> weight rd' < weight rd"
    and C: "\<And>v rd v' rd'. readCompound m v rd = Some (Inr (v', rd'))
                \<Longrightarrow> weight rd' < weight rd"
    and R: "readCompound (Suc m) v rd = Some (Inr (v', rd'))"
  shows "weight rd' < weight rd"
proof -
  from R obtain name tag rd1 where t: "readTag rd = Inr ((name, tag), rd1)"
    by (auto simp: readCompound.simps [of "Suc m"] panic_def split: sum.splits prod.splits)
  show ?thesis
  proof (cases "tag = TAG_End")
    case True
    with R t have "rd' = rd1"
      by (simp add: readCompound.simps [of "Suc m"])
    with readTag_weight [OF t] show ?thesis
      by simp
  next
    case False
    with R t obtain field field' rd2 w
      where a: "readValue m tag field rd1 = Some (Inr (field', rd2))"
        and b: "readCompound m w rd2 = Some (Inr (v', rd'))"
      by (auto simp: readCompound.simps [of "Suc m"] panic_def
            split: option.splits sum.splits prod.splits)
    from readTag_weight [OF t] V [OF a] C [OF b] show ?thesis
      by simp
  qed
qed

lemma decode_weight:
  "(\<forall>tag v rd v' rd'. readValue n tag v rd = Some (Inr (v', rd')) \<longrightarrow> weight rd' < weight rd)
   \<and> (\<forall>inner k kind v rd v' rd'. readList n inner k kind v rd = Some (Inr (v', rd'))
         \<longrightarrow> weight rd' \<le> weight rd)
   \<and> (\<forall>v rd v' rd'. readCompound n v rd = Some (Inr (v', rd')) \<longrightarrow> weight rd' < weight rd)"
proof (induction n)
  case 0
  have L: "weight rd' \<le> weight rd" if "readList 0 inner k kind v rd = Some (Inr (v', rd'))"
    for inner k kind v rd v' rd'
    using that by (cases "k = 0") (simp_all add: readList.simps [of 0])
  have C: "weight rd' < weight rd" if "readCompound 0 v rd = Some (Inr (v', rd'))"
    for v rd v' rd'
    using that by (simp add: readCompound.simps [of 0])
  have V: "weight rd' < weight rd" if a: "readValue 0 tag v rd = Some (Inr (v', rd'))"
    for tag v rd v' rd'
    by (rule readValue_weight_step [OF L C a])
  show ?case
  proof (intro conjI allI impI)
    show "weight rd' < weight rd" if "readValue 0 tag v rd = Some (Inr (v', rd'))"
      for tag v rd v' rd'
      using that by (rule V)
    show "weight rd' \<le> weight rd" if "readList 0 inner k kind v rd = Some (Inr (v', rd'))"
      for inner k kind v rd v' rd'
      using that by (rule L)
    show "weight rd' < weight rd" if "readCompound 0 v rd = Some (Inr (v', rd'))"
      for v rd v' rd'
      using that by (rule C)
  qed
next
  case (Suc m)
  from Suc.IH have V': "weight rd' < weight rd" if "readValue m tag v rd = Some (Inr (v', rd'))"
    for tag v rd v' rd'
    using that by simp
  from Suc.IH have L': "weight rd' \<le> weight rd"
    if "readList m inner k kind v rd = Some (Inr (v', rd'))" for inner k kind v rd v' rd'
    using that by simp
  from Suc.IH have C': "weight rd' < weight rd" if "readCompound m v rd = Some (Inr (v', rd'))"
    for v rd v' rd'
    using that by simp
  have L: "weight rd' \<le> weight rd" if a: "readList (Suc m) inner k kind v rd = Some (Inr (v', rd'))"
    for inner k kind v rd v' rd'
    by (rule readList_weight_step [OF V' L' a])
  have C: "weight rd' < weight rd" if a: "readCompound (Suc m) v rd = Some (Inr (v', rd'))"
    for v rd v' rd'
    by (rule readCompound_weight_step [OF V' C' a])
  have V: "weight rd' < weight rd" if a: "readValue (Suc m) tag v rd = Some (Inr (v', rd'))"
    for tag v rd v' rd'
    by (rule readValue_weight_step [OF L C a])
  show ?case
  proof (intro conjI allI impI)
    show "weight rd' < weight rd" if "readValue (Suc m) tag v rd = Some (Inr (v', rd'))"
      for tag v rd v' rd'
      using that by (rule V)
    show "weight rd' \<le> weight rd" if "readList (Suc m) inner k kind v rd = Some (Inr (v', rd'))"
      for inner k kind v rd v' rd'
      using that by (rule L)
    show "weight rd' < weight rd" if "readCompound (Suc m) v rd = Some (Inr (v', rd'))"
      for v rd v' rd'
      using that by (rule C)
  qed
qed

lemma readValue_weight:
  "readValue n tag v rd = Some (Inr (v', rd')) \<Longrightarrow> weight rd' < weight rd"
  using decode_weight [of n] by simp

text \<open>With more fuel than the weight of the stream, decoding returns.\<close>

lemma readList_returns_step:
  assumes V: "\<And>tag v rd. weight rd < m \<Longrightarrow> readValue m tag v rd \<noteq> None"
    and L: "\<And>inner k kind v rd. k = 0 \<or> weight rd + 1 < m
              \<Longrightarrow> readList m inner k kind v rd \<noteq> None"
    and w: "k = 0 \<or> weight rd + 1 < Suc m"
  shows "readList (Suc m) inner k kind v rd \<noteq> None"
proof (cases "k = 0")
  case True
  then show ?thesis
    by (simp add: readList.simps [of "Suc m"])
next
  case False
  with w have w': "weight rd < m"
    by simp
  from V [OF w'] obtain y where y: "readValue m inner (Zero kind) rd = Some y"
    by auto
  show ?thesis
  proof (cases y)
    case (Inl e)
    with y False show ?thesis
      by (simp add: readList.simps [of "Suc m"] panic_def)
  next
    case (Inr p)
    obtain elem rd1 where p: "p = (elem, rd1)"
      by (cases p)
    from y Inr p have "readValue m inner (Zero kind) rd = Some (Inr (elem, rd1))"
      by simp
    from readValue_weight [OF this] w' have "weight rd1 + 1 < m"
      by simp
    then have "readList m inner (k - 1) kind v1 rd1 \<noteq> None" for v1
      by (intro L) simp
    with y Inr p False show ?thesis
      by (auto simp: readList.simps [of "Suc m"] panic_def split: sum.splits)
  qed
qed

lemma readCompound_returns_step:
  assumes V: "\<And>tag v rd. weight rd < m \<Longrightarrow> readValue m tag v rd \<noteq> None"
    and C: "\<And>v rd. weight rd < m \<Longrightarrow> readCompound m v rd \<noteq> None"
    and w: "weight rd < Suc m"
  shows "readCompound (Suc m) v rd \<noteq> None"
proof (cases "readTag rd")
  case (Inl e)
  then show ?thesis
    by (simp add: readCompound.simps [of "Suc m"] panic_def)
next
  case (Inr h)
  obtain name tag rd1 where h: "h = ((name, tag), rd1)"
    by (cases h) auto
  from Inr h have "readTag rd = Inr ((name, tag), rd1)"
    by simp
  from readTag_weight [OF this] w have w1: "weight rd1 < m"
    by simp
  show ?thesis
  proof (cases "tag = TAG_End \<or> parseStruct v name = None")
    case True
    with Inr h show ?thesis
      by (auto simp: readCompound.simps [of "Suc m"] panic_def)
  next
    case False
    then obtain field where f: "parseStruct v name = Some field" and t: "tag \<noteq> TAG_End"
      by auto
    from V [OF w1] obtain y where y: "readValue m tag field rd1 = Some y"
      by auto
    show ?thesis
    proof (cases y)
      case (Inl e)
      with Inr h f t y show ?thesis
        by (simp add: readCompound.simps [of "Suc m"] panic_def)
    next
      case r: (Inr p)
      obtain field' rd2 where p: "p = (field', rd2)"
        by (cases p)
      from y r p have "readValue m tag field rd1 = Some (Inr (field', rd2))"
        by simp
      from readValue_weight [OF this] w1 have "weight rd2 < m"
        by simp
      from C [OF this] have "readCompound m (assign v name field') rd2 \<noteq> None" .
      with Inr h f t y r p show ?thesis
        by (simp add: readCompound.simps [of "Suc m"])
    qed
  qed
qed

lemma readValue_returns_step:
  assumes L: "\<And>inner k kind v rd. k = 0 \<or> weight rd + 1 < n
              \<Longrightarrow> readList n inner k kind v rd \<noteq> None"
    and C: "\<And>v rd. weight rd < n \<Longrightarrow> readCompound n v rd \<noteq> None"
    and w: "weight rd < n"
  shows "readValue n tag v rd \<noteq> None"
proof -
  consider "tag = TAG_List" | "tag = TAG_Compound" | "tag \<noteq> TAG_List" "tag \<noteq> TAG_Compound"
    by blast
  then show ?thesis
  proof cases
    case 1
    have "readList n inner k kind u rd2 \<noteq> None"
      if "r 1 rd = Inr (x, rd1)" and "r 4 rd1 = Inr (y, rd2)" for inner k kind u x rd1 y rd2
    proof -
      from r_weight [OF that(1)] r_weight [OF that(2)] w have "weight rd2 + 1 < n"
        by simp
      then show ?thesis
        by (intro L) simp
    qed
    then show ?thesis
      unfolding 1 readValue_List_eq [of n]
      by (auto simp: panic_def split: sum.splits prod.splits)
  next
    case 2
    from C [OF w] show ?thesis
      unfolding 2 readValue_Compound_eq [of n]
      by (simp add: panic_def)
  next
    case 3
    with readValue_flat [of tag n v rd] show ?thesis
      by simp
  qed
qed

lemma decode_returns:
  "(\<forall>tag v rd. weight rd < n \<longrightarrow> readValue n tag v rd \<noteq> None)
   \<and> (\<forall>inner k kind v rd. k = 0 \<or> weight rd + 1 < n \<longrightarrow> readList n inner k kind v rd \<noteq> None)
   \<and> (\<forall>v rd. weight rd < n \<longrightarrow> readCompound n v rd \<noteq> None)"
proof (induction n)
  case 0
  have "readList 0 inner k kind v rd \<noteq> None" if "k = 0 \<or> weight rd + 1 < 0"
    for inner k kind v rd
    using that by (simp add: readList.simps [of 0])
  then show ?case
    by simp
next
  case (Suc m)
  from Suc.IH have V': "readValue m tag v rd \<noteq> None" if "weight rd < m" for tag v rd
    using that by simp
  from Suc.IH have L': "readList m inner k kind v rd \<noteq> None" if "k = 0 \<or> weight rd + 1 < m"
    for inner k kind v rd
    using that by blast
  from Suc.IH have C': "readCompound m v rd \<noteq> None" if "weight rd < m" for v rd
    using that by simp
  have L: "readList (Suc m) inner k kind v rd \<noteq> None" if a: "k = 0 \<or> weight rd + 1 < Suc m"
    for inner k kind v rd
    by (rule readList_returns_step [OF V' L' a])
  have C: "readCompound (Suc m) v rd \<noteq> None" if a: "weight rd < Suc m" for v rd
    by (rule readCompound_returns_step [OF V' C' a])
  have V: "readValue (Suc m) tag v rd \<noteq> None" if a: "weight rd < Suc m" for tag v rd
    by (rule readValue_returns_step [OF L C a])
  show ?case
  proof (intro conjI allI impI)
    show "readValue (Suc m) tag v rd \<noteq> None" if "weight rd < Suc m" for tag v rd
      using that by (rule V)
    show "readList (Suc m) inner k kind v rd \<noteq> None" if "k = 0 \<or> weight rd + 1 < Suc m"
      for inner k kind v rd
      using that by (rule L)
    show "readCompound (Suc m) v rd \<noteq> None" if "weight rd < Suc m" for v rd
      using that by (rule C)
  qed
qed

lemma readValue_returns: "\<exists>y. readValue (Suc (weight rd)) tag v rd = Some y"
  using decode_returns [of "Suc (weight rd)"] by auto

text \<open>So the result does not depend on the fuel, once it exceeds the weight of the stream.\<close>

lemma readValue_enough_fuel:
  assumes "weight rd < n"
  shows "readValue n tag v rd = readValue (Suc (weight rd)) tag v rd"
proof -
  from readValue_returns obtain y where y: "readValue (Suc (weight rd)) tag v rd = Some y"
    by blast
  from assms obtain k where "n = Suc (weight rd) + k"
    using less_iff_Suc_add by auto
  with readValue_more_fuel [OF y, of k] y show ?thesis
    by simp
qed

subsection \<open>Scalars\<close>

text \<open>
  C9. A \<^verbatim>\<open>TAG_Byte\<close> payload byte \<open>b\<close> decoded into a settable signed 8-bit slot leaves the
  slot holding the bits of \<open>b\<close>, whose signed reading is the two's-complement
  interpretation of \<open>b\<close>; decoded into a settable unsigned 8-bit slot it leaves \<open>b\<close> as an
  unsigned value. The hypothesis says that the one-byte read of the stream yields \<open>b\<close>.
\<close>

theorem readValue_Byte_int8_uint8:
  assumes "r 1 rd = Inr (unat b, rd')"
  shows "readValue n TAG_Byte (Value True (V_int8 old)) rd
           = Some (Inr (Value True (V_int8 b), rd'))
       \<and> sint b = (if unat b < 128 then int (unat b) else int (unat b) - 256)
       \<and> readValue n TAG_Byte (Value True (V_uint8 old')) rd
           = Some (Inr (Value True (V_uint8 b), rd'))"
proof -
  have "readValue n TAG_Byte (Value True (V_int8 old)) rd
          = Some (Inr (Value True (V_int8 b), rd'))"
    using assms
    by (subst readValue.simps) (simp add: Kind_def put_def SetInt_def ucast_scast_byte)
  moreover have "readValue n TAG_Byte (Value True (V_uint8 old')) rd
          = Some (Inr (Value True (V_uint8 b), rd'))"
    using assms
    by (subst readValue.simps) (simp add: Kind_def put_def SetUint_def ucast_up_ucast_id is_up)
  ultimately show ?thesis
    using sint_byte [of b] by simp
qed

theorem readValue_Byte_int8_uint8_witness:
  "r 1 [[0xFF]] = Inr (unat (0xFF :: byte), [])
   \<and> readValue 0 TAG_Byte (Value True (V_int8 0)) [[0xFF]]
       = Some (Inr (Value True (V_int8 0xFF), []))
   \<and> sint (0xFF :: byte) = - 1
   \<and> readValue 0 TAG_Byte (Value True (V_uint8 0)) [[0xFF]]
       = Some (Inr (Value True (V_uint8 0xFF), []))
   \<and> unat (0xFF :: byte) = 255"
proof -
  have h: "r 1 [[0xFF]] = Inr (unat (0xFF :: byte), [])"
    by (simp add: r_def ReadFull.simps BigEndian_def)
  from readValue_Byte_int8_uint8 [OF h, of 0 0 0] h show ?thesis
    by simp
qed

text \<open>
  C10. A \<^verbatim>\<open>TAG_Byte\<close> payload byte \<open>b\<close> decoded into a settable boolean slot sets the slot
  to true if and only if \<open>b\<close> is nonzero.
\<close>

theorem readValue_Byte_bool:
  assumes "r 1 rd = Inr (unat (b :: byte), rd')"
  shows "readValue n TAG_Byte (Value True (V_bool old)) rd
           = Some (Inr (Value True (V_bool (b \<noteq> 0)), rd'))"
  using assms
  by (subst readValue.simps) (simp add: Kind_def put_def SetBool_def)

theorem readValue_Byte_bool_witness:
  "r 1 [[2, 0]] = Inr (unat (2 :: byte), [[0]])
   \<and> readValue 0 TAG_Byte (Value True (V_bool False)) [[2, 0]]
       = Some (Inr (Value True (V_bool True), [[0]]))
   \<and> r 1 [[0]] = Inr (unat (0 :: byte), [])
   \<and> readValue 0 TAG_Byte (Value True (V_bool True)) [[0]]
       = Some (Inr (Value True (V_bool False), []))"
proof -
  have h2: "r 1 [[2, 0]] = Inr (unat (2 :: byte), [[0]])"
    by (simp add: r_def ReadFull.simps BigEndian_def)
  have h0: "r 1 [[0]] = Inr (unat (0 :: byte), [])"
    by (simp add: r_def ReadFull.simps BigEndian_def)
  from readValue_Byte_bool [OF h2, of 0 False] readValue_Byte_bool [OF h0, of 0 True] h2 h0
  show ?thesis
    by simp
qed

text \<open>
  What the \<^verbatim>\<open>TAG_Int\<close> case writes into a settable signed 32-bit slot, for a payload of
  value \<open>w\<close>: the low 16 bits of \<open>w\<close>, sign-extended (\<^verbatim>\<open>int64(int16(value))\<close>).
\<close>

lemma readValue_Int_int32:
  assumes "r 4 rd = Inr (unat (w :: 32 word), rd')"
  shows "readValue n TAG_Int (Value True (V_int32 old)) rd
           = Some (Inr (Value True (V_int32 (ucast (scast (ucast w :: 16 word) :: 64 word))), rd'))"
  using assms
  by (subst readValue.simps) (simp add: Kind_def put_def SetInt_def TAG_defs)

text \<open>
  C1. A \<^verbatim>\<open>TAG_Int\<close> payload decoded into a signed 32-bit slot should leave the exact
  32-bit value in the slot. The code does not: the payload \<^verbatim>\<open>00 01 00 00\<close> encodes
  65536, and the slot, which held 7, is left holding 0, by \<open>readValue\<close> and by
  \<open>Unmarshal\<close> on the document whose top-level entry is this \<^verbatim>\<open>TAG_Int\<close> with an empty
  name.
\<close>

theorem readValue_Int_int32_loses_high_bits:
  "BigEndian [0x00, 0x01, 0x00, 0x00] = 65536
   \<and> readValue 0 TAG_Int (Value True (V_int32 7)) [[0x00, 0x01, 0x00, 0x00]]
       = Some (Inr (Value True (V_int32 0), []))
   \<and> Unmarshal 0 Inr Inr Uncompressed (Some [[TAG_Int, 0, 0, 0x00, 0x01, 0x00, 0x00]]) (V_int32 7)
       = Some (Inr (V_int32 0))"
proof -
  have rv: "readValue 0 TAG_Int (Value True (V_int32 7)) [[0x00, 0x01, 0x00, 0x00]]
       = Some (Inr (Value True (V_int32 0), []))"
    by (subst readValue.simps)
       (simp add: Kind_def put_def SetInt_def TAG_defs r_def ReadFull.simps BigEndian_def)
  have tg: "readTag [[TAG_Int, 0, 0, 0x00, 0x01, 0x00, 0x00]]
       = Inr (([], TAG_Int), [[0x00, 0x01, 0x00, 0x00]])"
    by (simp add: readTag_def readString_def r_def ReadFull.simps BigEndian_def TAG_defs)
  show ?thesis
    by (simp add: rv tg Unmarshal_def init_def unmarshal_def) (simp add: BigEndian_def)
qed

text \<open>
  What the \<^verbatim>\<open>TAG_Float\<close> case writes into a settable \<^verbatim>\<open>float32\<close> slot, for a payload
  with the bits \<open>w\<close>: the \<^verbatim>\<open>float32\<close> after the conversion to \<^verbatim>\<open>float64\<close> and back. A
  signalling NaN comes out quiet, the number 1 as it is.
\<close>

lemma readValue_Float_float32:
  assumes "r 4 rd = Inr (unat (w :: 32 word), rd')"
  shows "readValue n TAG_Float (Value True (V_float32 old)) rd
           = Some (Inr (Value True (V_float32 (float64_of_float32 w)), rd'))"
  using assms
  by (subst readValue.simps) (simp add: Kind_def put_def SetFloat_def TAG_defs)

lemma float64_of_float32_signalling_NaN:
  "float64_of_float32 0x7F800001 = Float32frombits 0x7FC00001"
  by code_simp

lemma float64_of_float32_one:
  "float64_of_float32 0x3F800000 = Float32frombits 0x3F800000"
  by code_simp

subsection \<open>Native integers\<close>

text \<open>
  C6. Decoding into a slot of kind \<^verbatim>\<open>int\<close> or \<^verbatim>\<open>uint\<close> fails, for every tag and every
  stream: the check comes before the dispatch on the tag and reads nothing. So
  \<open>Unmarshal\<close> into a destination of such a kind returns an error for every input.
\<close>

theorem readValue_native_int_rejected:
  assumes "Kind v = reflect_Int \<or> Kind v = reflect_Uint"
  shows "readValue n tag v rd = Some (Inl NotPortable)
       \<and> (\<exists>e. Unmarshal n gz zl compression inp (Interface v) = Some (Inl e))"
proof -
  have rv: "readValue n tag' (Value a (Interface v)) rd' = Some (Inl NotPortable)"
    for tag' a rd'
    using assms by (subst readValue.simps) (auto simp: panic_def Kind_def)
  have um: "\<exists>e. unmarshal n d (Interface v) = Some (Inl e)" for d
    by (cases "readTag d") (auto simp: unmarshal_def panic_def rv)
  have "\<exists>e. Unmarshal n gz zl compression inp (Interface v) = Some (Inl e)"
  proof (cases "init gz zl compression inp")
    case (Inl err)
    then show ?thesis
      by (simp add: Unmarshal_def)
  next
    case (Inr d)
    from um [of d] obtain e where "unmarshal n d (Interface v) = Some (Inl e)" ..
    with Inr show ?thesis
      by (simp add: Unmarshal_def)
  qed
  moreover from rv [of tag "CanSet v" rd] have "readValue n tag v rd = Some (Inl NotPortable)"
    by simp
  ultimately show ?thesis
    by simp
qed

theorem readValue_native_int_rejected_witness:
  "(Kind (Value True (V_uint 5)) = reflect_Int \<or> Kind (Value True (V_uint 5)) = reflect_Uint)
   \<and> readValue 0 TAG_Int (Value True (V_uint 5)) [[0, 0, 0, 1]] = Some (Inl NotPortable)
   \<and> (\<exists>e. Unmarshal 0 Inr Inr Uncompressed (Some [[TAG_Int, 0, 0, 0, 0, 0, 1]]) (V_uint 5)
          = Some (Inl e))"
proof -
  have h: "Kind (Value True (V_uint 5)) = reflect_Int \<or> Kind (Value True (V_uint 5)) = reflect_Uint"
    by (simp add: Kind_def)
  from readValue_native_int_rejected [OF h, of 0 TAG_Int "[[0, 0, 0, 1]]" Inr Inr Uncompressed
      "Some [[TAG_Int, 0, 0, 0, 0, 0, 1]]"] h
  show ?thesis
    by simp
qed

subsection \<open>Length-prefixed reads\<close>

text \<open>
  \<open>readString\<close> succeeds with whatever its one call of \<^verbatim>\<open>Read\<close> delivers without an
  error, \<open>bs\<close>, filled up with zero bytes to the declared length.
\<close>

lemma readString_single_Read:
  assumes "r 2 rd = Inr (len, rd1)" and "Read len rd1 = (bs, None, rd2)"
  shows "readString rd = Inr (bs @ replicate (len - length bs) 0, rd2)"
  using assms by (simp add: readString_def)

text \<open>
  C3. A length-prefixed read should fail when the stream delivers fewer bytes than
  declared. The code does not: \<open>readString\<close> on a stream that declares 5 bytes and
  holds 2 returns these 2 bytes followed by 3 zero bytes; \<open>Unmarshal\<close> of a top-level
  String with that payload succeeds with this value; and the byte-array case does the
  same with a payload that declares 5 bytes and holds 2.
\<close>

theorem readString_accepts_short_read:
  "readString [[0x00, 0x05, 0x61, 0x62]] = Inr ([0x61, 0x62, 0, 0, 0], [])
   \<and> Unmarshal 0 Inr Inr Uncompressed
        (Some [[TAG_String, 0, 0, 0x00, 0x05, 0x61, 0x62]]) (V_string [])
      = Some (Inr (V_string [0x61, 0x62, 0, 0, 0]))
   \<and> readValue 0 TAG_Byte_Array (Value True (V_slice T_uint8 [] 0))
        [[0x00, 0x00, 0x00, 0x05, 0x61, 0x62]]
      = Some (Inr (Value True
          (V_slice T_uint8 [V_uint8 0x61, V_uint8 0x62, V_uint8 0, V_uint8 0, V_uint8 0] 5), []))"
proof -
  have rs: "readString [[0x00, 0x05, 0x61, 0x62]] = Inr ([0x61, 0x62, 0, 0, 0], [])"
    by (simp add: readString_def r_def ReadFull.simps BigEndian_def)
       (simp add: numeral_eq_Suc)
  have tg: "readTag [[TAG_String, 0, 0, 0x00, 0x05, 0x61, 0x62]]
              = Inr (([], TAG_String), [[0x00, 0x05, 0x61, 0x62]])"
    by (simp add: readTag_def readString_def r_def ReadFull.simps BigEndian_def TAG_defs)
  have rv: "readValue 0 TAG_String (Value True (V_string [])) [[0x00, 0x05, 0x61, 0x62]]
              = Some (Inr (Value True (V_string [0x61, 0x62, 0, 0, 0]), []))"
    by (subst readValue.simps) (simp add: rs Kind_def put_def SetString_def TAG_defs)
  have r4: "r 4 [[0x00, 0x00, 0x00, 0x05, 0x61, 0x62]] = Inr (5, [[0x61, 0x62]])"
    by (simp add: r_def ReadFull.simps BigEndian_def)
  have ri: "read_into (Value True (V_slice T_uint8 (replicate 5 (V_uint8 0)) 5)) 5 [[0x61, 0x62]]
              = Some (Inr (Value True
          (V_slice T_uint8 [V_uint8 0x61, V_uint8 0x62, V_uint8 0, V_uint8 0, V_uint8 0] 5), []))"
    by (simp add: read_into_def Slice_def Bytes_def store_def numeral_eq_Suc)
  have ba: "readValue 0 TAG_Byte_Array (Value True (V_slice T_uint8 [] 0))
        [[0x00, 0x00, 0x00, 0x05, 0x61, 0x62]]
      = Some (Inr (Value True
          (V_slice T_uint8 [V_uint8 0x61, V_uint8 0x62, V_uint8 0, V_uint8 0, V_uint8 0] 5), []))"
    by (subst readValue.simps)
       (simp add: r4 ri Kind_def Cap_def Set_def MakeSlice_def Type_Elem_def TAG_defs)
  show ?thesis
    by (simp add: rs ba rv tg Unmarshal_def init_def unmarshal_def)
qed

subsection \<open>Byte arrays\<close>

text \<open>
  A byte array whose declared length exceeds the length of the fixed-capacity
  destination is rejected with both lengths, before anything of the payload is read.
\<close>

lemma readValue_Byte_Array_array_too_short:
  assumes "r 4 rd = Inr (unat (L :: 32 word), rd1)"
    and "Kind v = reflect_Array" and "Len v < unat L"
  shows "readValue n TAG_Byte_Array v rd = Some (Inl (ByteArrayTooLong (unat L) (Len v)))"
proof -
  have "(word_of_nat (Len v) :: 32 word) < L"
    using assms(3) by (simp add: word_less_nat_alt unat_of_nat)
  with assms(1,2) show ?thesis
    by (subst readValue.simps) (simp add: TAG_defs panic_def)
qed

text \<open>
  A settable slice of bytes whose capacity is below the declared length \<open>L\<close> is replaced
  by a fresh slice of length and capacity \<open>L\<close>; then \<^verbatim>\<open>d.in.Read\<close> is called once on its
  \<open>L\<close> cells. With the bytes \<open>bs\<close> that this call delivers, the destination is left
  holding \<open>bs\<close> followed by zero bytes up to the length \<open>L\<close>.
\<close>

lemma readValue_Byte_Array_slice_grows:
  assumes "r 4 rd = Inr (unat (L :: 32 word), rd1)"
    and "length b < unat L"
    and "Read (unat L) rd1 = (bs, None, rd2)"
  shows "readValue n TAG_Byte_Array (Value True (V_slice T_uint8 b len)) rd
           = Some (Inr (Value True
               (V_slice T_uint8 (map V_uint8 bs @ replicate (unat L - length bs) (V_uint8 0))
                  (unat L)), rd2))"
proof -
  have lt: "(word_of_nat (length b) :: 32 word) < L"
    using assms(2) by (simp add: word_less_nat_alt unat_of_nat)
  have "read_into (Value True (V_slice T_uint8 (replicate (unat L) (V_uint8 0)) (unat L)))
          (unat L) rd1
        = Some (Inr (Value True
               (V_slice T_uint8 (map V_uint8 bs @ replicate (unat L - length bs) (V_uint8 0))
                  (unat L)), rd2))"
    using assms(3) by (simp add: read_into_def Slice_def Bytes_def store_def)
  with assms(1) lt show ?thesis
    by (subst readValue.simps)
       (simp add: Kind_def Cap_def Set_def MakeSlice_def Type_Elem_def TAG_defs)
qed

text \<open>
  C4. Decoding a byte array of declared length \<open>L\<close> into a growable destination of
  smaller capacity should, on success, leave the destination holding the \<open>L\<close> payload
  bytes. The code does not when the stream hands the payload over in pieces: for the
  document with a top-level byte array of the two bytes \<^verbatim>\<open>41 42\<close>, delivered by a
  reader whose first chunk ends after \<^verbatim>\<open>41\<close>, \<open>Unmarshal\<close> succeeds and leaves the
  destination holding \<^verbatim>\<open>41 00\<close>.
\<close>

theorem Unmarshal_Byte_Array_short_read:
  "Unmarshal 0 Inr Inr Uncompressed
      (Some [[TAG_Byte_Array, 0, 0, 0x00, 0x00, 0x00, 0x02, 0x41], [0x42]]) (V_slice T_uint8 [] 0)
    = Some (Inr (V_slice T_uint8 [V_uint8 0x41, V_uint8 0x00] 2))"
proof -
  have tg: "readTag [[TAG_Byte_Array, 0, 0, 0x00, 0x00, 0x00, 0x02, 0x41], [0x42]]
              = Inr (([], TAG_Byte_Array), [[0x00, 0x00, 0x00, 0x02, 0x41], [0x42]])"
    by (simp add: readTag_def readString_def r_def ReadFull.simps BigEndian_def)
       (simp add: TAG_defs)
  have r4: "r 4 [[0x00, 0x00, 0x00, 0x02, 0x41], [0x42]] = Inr (unat (2 :: 32 word), [[0x41], [0x42]])"
    by (simp add: r_def ReadFull.simps BigEndian_def)
  have rd: "Read (unat (2 :: 32 word)) [[0x41], [0x42]] = ([0x41], None, [[0x42]])"
    by simp
  have "readValue 0 TAG_Byte_Array (Value True (V_slice T_uint8 [] 0))
          [[0x00, 0x00, 0x00, 0x02, 0x41], [0x42]]
        = Some (Inr (Value True (V_slice T_uint8 [V_uint8 0x41, V_uint8 0x00] 2), [[0x42]]))"
    using readValue_Byte_Array_slice_grows [OF r4 _ rd, of "[]" 0 0]
    by simp
  then show ?thesis
    by (simp add: tg Unmarshal_def init_def unmarshal_def)
qed

subsection \<open>Lists\<close>

text \<open>
  The element the list loop decodes into is \<^verbatim>\<open>reflect.Zero(kind)\<close>, which cannot be set:
  with at least one element to read and an \<^verbatim>\<open>int32\<close> or \<^verbatim>\<open>uint32\<close> element type, the
  first \<^verbatim>\<open>TAG_Int\<close> element is read from the stream and the setter panics.
\<close>

lemma readList_Int_panics:
  assumes "0 < k" and "r 4 rd = Inr (x, rd')"
  shows "readList (Suc n) TAG_Int k T_int32 v rd
           = Some (Inl (ReflectPanic (UsingUnaddressableValue ''SetInt'')))"
    and "readList (Suc n) TAG_Int k T_uint32 v rd
           = Some (Inl (ReflectPanic (UsingUnaddressableValue ''SetUint'')))"
proof -
  have "readValue n TAG_Int (Zero T_int32) rd
          = Some (Inl (ReflectPanic (UsingUnaddressableValue ''SetInt'')))"
    using assms(2)
    by (subst readValue.simps) (simp add: Zero_def Kind_def put_def SetInt_def TAG_defs)
  with assms(1) show "readList (Suc n) TAG_Int k T_int32 v rd
           = Some (Inl (ReflectPanic (UsingUnaddressableValue ''SetInt'')))"
    by (subst readList.simps) (simp add: panic_def)
  have "readValue n TAG_Int (Zero T_uint32) rd
          = Some (Inl (ReflectPanic (UsingUnaddressableValue ''SetUint'')))"
    using assms(2)
    by (subst readValue.simps) (simp add: Zero_def Kind_def put_def SetUint_def TAG_defs)
  with assms(1) show "readList (Suc n) TAG_Int k T_uint32 v rd
           = Some (Inl (ReflectPanic (UsingUnaddressableValue ''SetUint'')))"
    by (subst readList.simps) (simp add: panic_def)
qed

text \<open>
  The list case on a settable slice: the slice is emptied, on a fresh backing array
  when its capacity (taken as a \<^verbatim>\<open>uint32\<close>) is below the count and on its own
  otherwise, and the loop runs.
\<close>

lemma readValue_List_slice:
  assumes "r 1 rd = Inr (x, rd1)" and "r 4 rd1 = Inr (y, rd2)"
  shows "readValue n TAG_List (Value True (V_slice t b len)) rd
           = readList n (word_of_nat x) (unat (word_of_nat y :: 32 word)) t
               (Value True (V_slice t
                  (if (word_of_nat (length b) :: 32 word) < word_of_nat y
                   then replicate (unat (word_of_nat y :: 32 word)) (zero t) else b) 0))
               rd2"
  using assms
  by (subst readValue.simps)
     (simp add: Kind_def Cap_def Set_def Slice_def MakeSlice_def Type_Elem_def TAG_defs Let_def)

text \<open>
  C2. A List of Int with count 3 and the payload of 1, 2, 3 should decode into a
  growable sequence, leaving it with exactly these three elements. The code does not:
  for every fuel that lets the loop run, and whatever the destination slice of
  \<^verbatim>\<open>int32\<close> or of \<^verbatim>\<open>uint32\<close> held, \<open>readValue\<close> panics at the first element, and so
  does \<open>Unmarshal\<close> on the document whose top-level entry is this list with an empty
  name.
\<close>

theorem readValue_List_of_Int_panics:
  "readValue (Suc n) TAG_List (Value True (V_slice T_int32 b len))
       [[TAG_Int, 0, 0, 0, 3, 0, 0, 0, 1, 0, 0, 0, 2, 0, 0, 0, 3]]
     = Some (Inl (ReflectPanic (UsingUnaddressableValue ''SetInt'')))
   \<and> readValue (Suc n) TAG_List (Value True (V_slice T_uint32 b len))
       [[TAG_Int, 0, 0, 0, 3, 0, 0, 0, 1, 0, 0, 0, 2, 0, 0, 0, 3]]
     = Some (Inl (ReflectPanic (UsingUnaddressableValue ''SetUint'')))
   \<and> Unmarshal (Suc n) Inr Inr Uncompressed
       (Some [[TAG_List, 0, 0, TAG_Int, 0, 0, 0, 3, 0, 0, 0, 1, 0, 0, 0, 2, 0, 0, 0, 3]])
       (V_slice T_int32 b len)
     = Some (Inl (ReflectPanic (UsingUnaddressableValue ''SetInt'')))"
proof -
  let ?payload = "[[TAG_Int, 0, 0, 0, 3, 0, 0, 0, 1, 0, 0, 0, 2, 0, 0, 0, 3]] :: reader"
  let ?count = "[[0, 0, 0, 3, 0, 0, 0, 1, 0, 0, 0, 2, 0, 0, 0, 3]] :: reader"
  let ?elems = "[[0, 0, 0, 1, 0, 0, 0, 2, 0, 0, 0, 3]] :: reader"
  have r1: "r 1 ?payload = Inr (unat TAG_Int, ?count)"
    by (simp add: r_def ReadFull.simps BigEndian_def)
  have r4: "r 4 ?count = Inr (3, ?elems)"
    by (simp add: r_def ReadFull.simps BigEndian_def)
  have re: "r 4 ?elems = Inr (1, [[0, 0, 0, 2, 0, 0, 0, 3]])"
    by (simp add: r_def ReadFull.simps BigEndian_def)
  have loop: "readList (Suc n) TAG_Int 3 T_int32 w ?elems
                = Some (Inl (ReflectPanic (UsingUnaddressableValue ''SetInt'')))" for w
    by (rule readList_Int_panics(1) [OF _ re]) simp
  have loop': "readList (Suc n) TAG_Int 3 T_uint32 w ?elems
                = Some (Inl (ReflectPanic (UsingUnaddressableValue ''SetUint'')))" for w
    by (rule readList_Int_panics(2) [OF _ re]) simp
  have rv: "readValue (Suc n) TAG_List (Value True (V_slice T_int32 b len)) ?payload
              = Some (Inl (ReflectPanic (UsingUnaddressableValue ''SetInt'')))"
    by (simp add: readValue_List_slice [OF r1 r4] loop)
  have rv': "readValue (Suc n) TAG_List (Value True (V_slice T_uint32 b len)) ?payload
              = Some (Inl (ReflectPanic (UsingUnaddressableValue ''SetUint'')))"
    by (simp add: readValue_List_slice [OF r1 r4] loop')
  have tg: "readTag [[TAG_List, 0, 0, TAG_Int, 0, 0, 0, 3, 0, 0, 0, 1, 0, 0, 0, 2, 0, 0, 0, 3]]
              = Inr (([], TAG_List), ?payload)"
    by (simp add: readTag_def readString_def r_def ReadFull.simps BigEndian_def)
       (simp add: TAG_defs)
  show ?thesis
    by (simp add: rv rv' tg Unmarshal_def init_def unmarshal_def)
qed

subsection \<open>Compounds\<close>

text \<open>
  C8. A compound whose first byte is the End tag decodes successfully, whatever fuel
  the loop is given beyond its one iteration, and leaves the destination composite as
  it was.
\<close>

theorem readValue_Compound_empty:
  assumes "r 1 rd = Inr (unat TAG_End, rd')" and "Kind v = reflect_Struct"
  shows "readValue (Suc n) TAG_Compound v rd = Some (Inr (v, rd'))"
proof -
  have "readTag rd = Inr (([], TAG_End), rd')"
    using assms(1) by (simp add: readTag_def)
  then have "readCompound (Suc n) v rd = Some (Inr (v, rd'))"
    by (subst readCompound.simps) simp
  then show ?thesis
    using assms(2) by (subst readValue.simps) (simp add: TAG_defs)
qed

theorem readValue_Compound_empty_witness:
  "r 1 [[TAG_End, 9]] = Inr (unat TAG_End, [[9]])
   \<and> Kind (Value True (V_struct [([0x61], V_int8 3), ([0x62], V_string [0x63])])) = reflect_Struct
   \<and> readValue 1 TAG_Compound
         (Value True (V_struct [([0x61], V_int8 3), ([0x62], V_string [0x63])])) [[TAG_End, 9]]
       = Some (Inr (Value True (V_struct [([0x61], V_int8 3), ([0x62], V_string [0x63])]), [[9]]))
   \<and> Unmarshal 1 Inr Inr Uncompressed (Some [[TAG_Compound, 0, 0, TAG_End, 9]])
         (V_struct [([0x61], V_int8 3), ([0x62], V_string [0x63])])
       = Some (Inr (V_struct [([0x61], V_int8 3), ([0x62], V_string [0x63])]))"
proof -
  have h: "r 1 [[TAG_End, 9]] = Inr (unat TAG_End, [[9]])"
    by (simp add: r_def ReadFull.simps BigEndian_def)
  have k: "Kind (Value True (V_struct [([0x61], V_int8 3), ([0x62], V_string [0x63])]))
             = reflect_Struct"
    by (simp add: Kind_def)
  have tg: "readTag [[TAG_Compound, 0, 0, TAG_End, 9]] = Inr (([], TAG_Compound), [[TAG_End, 9]])"
    by (simp add: readTag_def readString_def r_def ReadFull.simps BigEndian_def)
       (simp add: TAG_defs)
  from readValue_Compound_empty [OF h k, of 0] h k show ?thesis
    by (simp add: tg Unmarshal_def init_def unmarshal_def)
qed

text \<open>A write through a slot does not change which names the composite has.\<close>

lemma map_of_assign_field_None:
  "map_of (assign_field name0 x fs) name = None \<longleftrightarrow> map_of fs name = None"
  by (induction fs) auto

lemma parseStruct_assign_None:
  "parseStruct (assign v name0 field) name = None \<longleftrightarrow> parseStruct v name = None"
  by (cases v; cases "Interface v")
     (simp_all add: parseStruct_def assign_def map_of_assign_field_None)

lemma readCompound_unhandled_field:
  assumes "reads_entry n v rd name tag" and "parseStruct v name = None"
  shows "readCompound n v rd = Some (Inl (UnhandledField tag name))"
  using assms
proof (induction n arbitrary: v rd)
  case 0
  then show ?case
    by simp
next
  case (Suc m)
  from Suc.prems(1) obtain name0 tag0 rd1
    where t: "readTag rd = Inr ((name0, tag0), rd1)" and ne: "tag0 \<noteq> TAG_End"
    by (auto split: sum.splits prod.splits)
  show ?case
  proof (cases "name0 = name \<and> tag0 = tag")
    case True
    with t ne Suc.prems(2) show ?thesis
      by (subst readCompound.simps) (simp add: panic_def)
  next
    case False
    with Suc.prems(1) t ne obtain field field' rd2
      where f: "parseStruct v name0 = Some field"
        and d: "readValue m tag0 field rd1 = Some (Inr (field', rd2))"
        and e: "reads_entry m (assign v name0 field') rd2 name tag"
      by (auto split: option.splits sum.splits prod.splits)
    from Suc.prems(2) have "parseStruct (assign v name0 field') name = None"
      by (simp add: parseStruct_assign_None)
    with Suc.IH [OF e] have "readCompound m (assign v name0 field') rd2
                          = Some (Inl (UnhandledField tag name))"
      by simp
    with t ne f d show ?thesis
      by (subst readCompound.simps) simp
  qed
qed

text \<open>
  C5, the claim as stated. A compound payload that contains a named entry without a
  field in the destination does not always fail with an error naming that field:
  decoding stops at the first failure. In the payload below the first entry is a Byte
  named \<^verbatim>\<open>a\<close>, the second a Short named \<^verbatim>\<open>zz\<close>; the destination has the one field
  \<^verbatim>\<open>a\<close>, of kind string. Decoding fails at the first entry, with the error of the tag
  that does not fit the kind, which names no field, and \<open>Unmarshal\<close> of the document
  with this compound returns that error.
\<close>

theorem readValue_Compound_fails_before_unknown_field:
  "parseStruct (Value True (V_struct [([0x61], V_string [])])) [0x7A, 0x7A] = None
   \<and> readValue 3 TAG_Compound (Value True (V_struct [([0x61], V_string [])]))
        [[TAG_Byte, 0, 1, 0x61, 5, TAG_Short, 0, 2, 0x7A, 0x7A, 0, 7, TAG_End]]
      = Some (Inl (KindMismatch TAG_Byte reflect_String))
   \<and> readValue 3 TAG_Compound (Value True (V_struct [([0x61], V_string [])]))
        [[TAG_Byte, 0, 1, 0x61, 5, TAG_Short, 0, 2, 0x7A, 0x7A, 0, 7, TAG_End]]
      \<noteq> Some (Inl (UnhandledField TAG_Short [0x7A, 0x7A]))
   \<and> Unmarshal 3 Inr Inr Uncompressed
        (Some [[TAG_Compound, 0, 0,
                TAG_Byte, 0, 1, 0x61, 5, TAG_Short, 0, 2, 0x7A, 0x7A, 0, 7, TAG_End]])
        (V_struct [([0x61], V_string [])])
      = Some (Inl (KindMismatch TAG_Byte reflect_String))"
proof -
  let ?v = "Value True (V_struct [([0x61], V_string [])])"
  let ?rd = "[[TAG_Byte, 0, 1, 0x61, 5, TAG_Short, 0, 2, 0x7A, 0x7A, 0, 7, TAG_End]] :: reader"
  let ?rd1 = "[[5, TAG_Short, 0, 2, 0x7A, 0x7A, 0, 7, TAG_End]] :: reader"
  have k: "Kind ?v = reflect_Struct"
    by (simp add: Kind_def)
  have p: "parseStruct ?v [0x7A, 0x7A] = None"
    by (simp add: parseStruct_def)
  have t1: "readTag ?rd = Inr (([0x61], TAG_Byte), ?rd1)"
    by (simp add: readTag_def readString_def r_def ReadFull.simps BigEndian_def TAG_defs)
  have f1: "parseStruct ?v [0x61] = Some (Value True (V_string []))"
    by (simp add: parseStruct_def)
  have d1: "readValue 2 TAG_Byte (Value True (V_string [])) ?rd1
              = Some (Inl (KindMismatch TAG_Byte reflect_String))"
    by (subst readValue.simps)
       (simp add: Kind_def panic_def r_def ReadFull.simps BigEndian_def)
  have ne: "TAG_Byte \<noteq> TAG_End"
    by (simp add: TAG_defs)
  have three: "(3 :: nat) = Suc 2"
    by simp
  have c: "readCompound 3 ?v ?rd = Some (Inl (KindMismatch TAG_Byte reflect_String))"
    unfolding three
    by (subst readCompound.simps) (simp add: t1 f1 d1 ne panic_def)
  have rv: "readValue 3 TAG_Compound ?v ?rd = Some (Inl (KindMismatch TAG_Byte reflect_String))"
    using k c by (simp add: readValue_Compound_eq panic_def)
  have tg: "readTag [[TAG_Compound, 0, 0,
                TAG_Byte, 0, 1, 0x61, 5, TAG_Short, 0, 2, 0x7A, 0x7A, 0, 7, TAG_End]]
              = Inr (([], TAG_Compound), ?rd)"
    by (simp add: readTag_def readString_def r_def ReadFull.simps BigEndian_def)
       (simp add: TAG_defs)
  show ?thesis
    by (simp add: p rv tg Unmarshal_def init_def unmarshal_def)
qed

text \<open>
  C5, as amended. Whenever the loop over the entries of a compound reads the header of
  a named entry whose name is not a field of the destination composite, which it does
  once the entries before it have been decoded into their fields, decoding the
  compound fails with the error that names the tag and the field: an unknown entry
  that the loop reads is not skipped.
\<close>

theorem readValue_Compound_unhandled_field:
  assumes "Kind v = reflect_Struct"
    and "reads_entry n v rd name tag"
    and "parseStruct v name = None"
  shows "readValue n TAG_Compound v rd = Some (Inl (UnhandledField tag name))"
  using assms(1) readCompound_unhandled_field [OF assms(2,3)]
  by (subst readValue.simps) (simp add: TAG_defs)

theorem readValue_Compound_unhandled_field_witness:
  "Kind (Value True (V_struct [([0x61], V_uint8 0)])) = reflect_Struct
   \<and> reads_entry 2 (Value True (V_struct [([0x61], V_uint8 0)]))
        [[TAG_Byte, 0, 1, 0x61, 5, TAG_Short, 0, 1, 0x62, 0, 7, TAG_End]] [0x62] TAG_Short
   \<and> parseStruct (Value True (V_struct [([0x61], V_uint8 0)])) [0x62] = None
   \<and> readValue 2 TAG_Compound (Value True (V_struct [([0x61], V_uint8 0)]))
        [[TAG_Byte, 0, 1, 0x61, 5, TAG_Short, 0, 1, 0x62, 0, 7, TAG_End]]
      = Some (Inl (UnhandledField TAG_Short [0x62]))"
proof -
  let ?v = "Value True (V_struct [([0x61], V_uint8 0)])"
  let ?rd = "[[TAG_Byte, 0, 1, 0x61, 5, TAG_Short, 0, 1, 0x62, 0, 7, TAG_End]]"
  have k: "Kind ?v = reflect_Struct"
    by (simp add: Kind_def)
  have t1: "readTag ?rd = Inr (([0x61], TAG_Byte), [[5, TAG_Short, 0, 1, 0x62, 0, 7, TAG_End]])"
    by (simp add: readTag_def readString_def r_def ReadFull.simps BigEndian_def TAG_defs)
  have f1: "parseStruct ?v [0x61] = Some (Value True (V_uint8 0))"
    by (simp add: parseStruct_def)
  have d1: "readValue 1 TAG_Byte (Value True (V_uint8 0)) [[5, TAG_Short, 0, 1, 0x62, 0, 7, TAG_End]]
              = Some (Inr (Value True (V_uint8 5), [[TAG_Short, 0, 1, 0x62, 0, 7, TAG_End]]))"
    by (subst readValue.simps)
       (simp add: Kind_def put_def SetUint_def r_def ReadFull.simps BigEndian_def)
  have t2: "readTag [[TAG_Short, 0, 1, 0x62, 0, 7, TAG_End]]
              = Inr (([0x62], TAG_Short), [[0, 7, TAG_End]])"
    by (simp add: readTag_def readString_def r_def ReadFull.simps BigEndian_def TAG_defs)
  have ne: "TAG_Byte \<noteq> TAG_End" "TAG_Short \<noteq> TAG_End"
    by (simp_all add: TAG_defs)
  have "reads_entry (Suc 0) (assign ?v [0x61] (Value True (V_uint8 5)))
          [[TAG_Short, 0, 1, 0x62, 0, 7, TAG_End]] [0x62] TAG_Short"
    by (simp add: t2 ne)
  then have "reads_entry (Suc (Suc 0)) ?v ?rd [0x62] TAG_Short"
    using d1 by (simp add: t1 f1 ne)
  then have e: "reads_entry 2 ?v ?rd [0x62] TAG_Short"
    by (simp add: numeral_2_eq_2)
  have p: "parseStruct ?v [0x62] = None"
    by (simp add: parseStruct_def)
  from readValue_Compound_unhandled_field [OF k e p] k e p show ?thesis
    by simp
qed

text \<open>
  The single \<^verbatim>\<open>Read\<close> of \<open>readString\<close> can put the loop out of step with the entries.
  Here the first entry is the String \<^verbatim>\<open>s\<close> with the three bytes \<^verbatim>\<open>61 00 78\<close>, the second
  a Byte named \<^verbatim>\<open>zz\<close>, and the first chunk of the reader ends after \<^verbatim>\<open>61\<close>: the string
  is cut short, the loop takes its second byte for the End tag and returns normally,
  and the entry \<^verbatim>\<open>zz\<close>, which has no field, is never read.
\<close>

lemma readValue_Compound_short_read_ends_early:
  "readValue 3 TAG_Compound (Value True (V_struct [([0x73], V_string [])]))
     [[TAG_String, 0, 1, 0x73, 0, 3, 0x61],
      [0x00, 0x78, TAG_Byte, 0, 2, 0x7A, 0x7A, 5, TAG_End]]
   = Some (Inr (Value True (V_struct [([0x73], V_string [0x61, 0, 0])]),
        [[0x78, TAG_Byte, 0, 2, 0x7A, 0x7A, 5, TAG_End]]))"
proof -
  let ?v = "Value True (V_struct [([0x73], V_string [])])"
  let ?c2 = "[0x00, 0x78, TAG_Byte, 0, 2, 0x7A, 0x7A, 5, TAG_End] :: byte list"
  let ?rd = "[[TAG_String, 0, 1, 0x73, 0, 3, 0x61], ?c2] :: reader"
  have k: "Kind ?v = reflect_Struct"
    by (simp add: Kind_def)
  have t1: "readTag ?rd = Inr (([0x73], TAG_String), [[0, 3, 0x61], ?c2])"
    by (simp add: readTag_def readString_def r_def ReadFull.simps BigEndian_def TAG_defs)
  have f1: "parseStruct ?v [0x73] = Some (Value True (V_string []))"
    by (simp add: parseStruct_def)
  have s1: "readString [[0, 3, 0x61], ?c2] = Inr ([0x61, 0, 0], [?c2])"
    by (simp add: readString_def r_def ReadFull.simps BigEndian_def)
       (simp add: numeral_eq_Suc)
  have d1: "readValue 2 TAG_String (Value True (V_string [])) [[0, 3, 0x61], ?c2]
              = Some (Inr (Value True (V_string [0x61, 0, 0]), [?c2]))"
    by (subst readValue.simps)
       (simp add: s1 [unfolded TAG_defs] Kind_def put_def SetString_def TAG_defs)
  have t2: "readTag [?c2] = Inr (([], TAG_End), [[0x78, TAG_Byte, 0, 2, 0x7A, 0x7A, 5, TAG_End]])"
    by (simp add: readTag_def r_def ReadFull.simps BigEndian_def TAG_defs)
  have ne: "TAG_String \<noteq> TAG_End"
    by (simp add: TAG_defs)
  have two: "(2 :: nat) = Suc 1" and three: "(3 :: nat) = Suc 2"
    by simp_all
  have c2: "readCompound 2 (assign ?v [0x73] (Value True (V_string [0x61, 0, 0]))) [?c2]
              = Some (Inr (Value True (V_struct [([0x73], V_string [0x61, 0, 0])]),
                   [[0x78, TAG_Byte, 0, 2, 0x7A, 0x7A, 5, TAG_End]]))"
    unfolding two
    by (subst readCompound.simps) (simp add: t2 assign_def)
  have c: "readCompound 3 ?v ?rd
              = Some (Inr (Value True (V_struct [([0x73], V_string [0x61, 0, 0])]),
                   [[0x78, TAG_Byte, 0, 2, 0x7A, 0x7A, 5, TAG_End]]))"
    unfolding three
    by (subst readCompound.simps) (simp add: t1 f1 d1 c2 ne)
  show ?thesis
    using k c by (simp add: readValue_Compound_eq)
qed

subsection \<open>The entry point\<close>

text \<open>
  C7. A nil input stream, an unrecognised compression selector, or a decompressor
  whose initialisation fails makes \<open>init\<close> fail, and \<open>Unmarshal\<close> returns that failure as
  its error, for every fuel (also none) and every destination: the tag decoder, which
  \<open>Unmarshal\<close> runs on the state \<open>init\<close> returns, is not run, so no tag is read.
\<close>

theorem Unmarshal_configuration_error:
  "init gz zl compression None = Inl NilInput
   \<and> Unmarshal n gz zl compression None v = Some (Inl NilInput)
   \<and> init gz zl (OtherCompression k) (Some rd) = Inl (UnknownCompression (OtherCompression k))
   \<and> Unmarshal n gz zl (OtherCompression k) (Some rd) v
       = Some (Inl (UnknownCompression (OtherCompression k)))
   \<and> (gz rd = Inl err \<longrightarrow>
        init gz zl GZip (Some rd) = Inl err
        \<and> Unmarshal n gz zl GZip (Some rd) v = Some (Inl err))
   \<and> (zl rd = Inl err \<longrightarrow>
        init gz zl ZLib (Some rd) = Inl err
        \<and> Unmarshal n gz zl ZLib (Some rd) v = Some (Inl err))"
  by (simp add: Unmarshal_def init_def)

theorem Unmarshal_configuration_error_witness:
  "(\<lambda>rd. Inl (OtherError ''gzip: invalid header'')) [[3, 0, 0, 0, 0, 0, 1]]
      = (Inl (OtherError ''gzip: invalid header'') :: error + reader)
   \<and> init (\<lambda>rd. Inl (OtherError ''gzip: invalid header'')) Inr GZip (Some [[3, 0, 0, 0, 0, 0, 1]])
      = Inl (OtherError ''gzip: invalid header'')
   \<and> Unmarshal 5 (\<lambda>rd. Inl (OtherError ''gzip: invalid header'')) Inr GZip
        (Some [[3, 0, 0, 0, 0, 0, 1]]) (V_int32 7)
      = Some (Inl (OtherError ''gzip: invalid header''))
   \<and> (\<lambda>rd. Inl (OtherError ''zlib: invalid header'')) [[3, 0, 0, 0, 0, 0, 1]]
      = (Inl (OtherError ''zlib: invalid header'') :: error + reader)
   \<and> init Inr (\<lambda>rd. Inl (OtherError ''zlib: invalid header'')) ZLib (Some [[3, 0, 0, 0, 0, 0, 1]])
      = Inl (OtherError ''zlib: invalid header'')
   \<and> Unmarshal 5 Inr (\<lambda>rd. Inl (OtherError ''zlib: invalid header'')) ZLib
        (Some [[3, 0, 0, 0, 0, 0, 1]]) (V_int32 7)
      = Some (Inl (OtherError ''zlib: invalid header''))"
  using Unmarshal_configuration_error
    [of "\<lambda>rd. Inl (OtherError ''gzip: invalid header'')" Inr GZip 5 "V_int32 7" 0
        "[[3, 0, 0, 0, 0, 0, 1]]" "OtherError ''gzip: invalid header''"]
    Unmarshal_configuration_error
    [of Inr "\<lambda>rd. Inl (OtherError ''zlib: invalid header'')" ZLib 5 "V_int32 7" 0
        "[[3, 0, 0, 0, 0, 0, 1]]" "OtherError ''zlib: invalid header''"]
  by simp

end
